theory Spec2Isabelle
  imports Main
begin

unbundle bit_operations_syntax

section \<open>Data model\<close>

text \<open>
  The editor of \<^verbatim>\<open>src/unnamed/part_000\<close> (first variant, the one with syntax
  highlighting and search). Buffers are lists: \<open>chars\<close> holds the \<open>size\<close> bytes of a
  row (the terminating NUL is not stored), \<open>render\<close> the \<open>rsize\<close> rendered bytes and
  \<open>hl\<close> the bytes of the highlight buffer. The C fields \<open>size\<close>, \<open>rsize\<close> and
  \<open>num_rows\<close> are the lengths of these lists. C \<open>int\<close> values are modelled as
  unbounded \<open>int\<close>: no property below depends on a row count near \<open>2^31\<close>.
  Indexing a buffer outside its bounds is undefined in C. The model reads with \<open>!\<close>
  and writes with list update, so out of range it reads an unspecified element and
  writes nothing; a statement says something about the C program for the states whose
  indices are in range, which is what the cursor and search invariants below say.
\<close>

datatype editorHighlight = HL_NORMAL | HL_COMMENT | HL_STRING | HL_NUMBER | HL_MATCH

record editorSyntax =
  file_type :: string
  file_match :: "string list"
  singleline_comment_start :: "string option"
  flags :: int

record erow =
  chars :: string
  render :: string
  hl :: "editorHighlight list"

text \<open>
  \<open>struct editorConfig\<close>, followed by the function-local statics of
  \<open>editorProcessKeypress\<close> (\<open>quit_times\<close>) and \<open>editorFindCallback\<close>
  (\<open>last_match\<close>, \<open>direction\<close>, \<open>saved_hl_line\<close>, \<open>saved_hl\<close>). The status
  message and the saved terminal attributes are left out.
\<close>

record editorConfig =
  cx :: int
  cy :: int
  rx :: int
  row_offset :: int
  col_offset :: int
  screen_rows :: int
  screen_cols :: int
  row :: "erow list"
  dirty :: int
  filename :: "string option"
  syntax_sel :: "editorSyntax option"
  quit_times :: int
  last_match :: int
  direction :: int
  saved_hl_line :: int
  saved_hl :: "editorHighlight list option"

definition row_size :: "erow \<Rightarrow> int" where
  "row_size r = int (length (chars r))"

definition rsize :: "erow \<Rightarrow> int" where
  "rsize r = int (length (render r))"

definition num_rows :: "editorConfig \<Rightarrow> int" where
  "num_rows E = int (length (row E))"

definition EDI_TAB_STOP :: int where "EDI_TAB_STOP = 8"
definition EDI_QUIT_TIMES :: int where "EDI_QUIT_TIMES = 3"

definition BACKSPACE :: int where "BACKSPACE = 127"
definition ARROW_UP :: int where "ARROW_UP = 1000"
definition ARROW_DOWN :: int where "ARROW_DOWN = 1001"
definition ARROW_LEFT :: int where "ARROW_LEFT = 1002"
definition ARROW_RIGHT :: int where "ARROW_RIGHT = 1003"
definition DEL_KEY :: int where "DEL_KEY = 1004"
definition HOME_KEY :: int where "HOME_KEY = 1005"
definition END_KEY :: int where "END_KEY = 1006"
definition PAGE_UP :: int where "PAGE_UP = 1007"
definition PAGE_DOWN :: int where "PAGE_DOWN = 1008"

definition HL_HIGHLIGHT_NUMBERS :: int where "HL_HIGHLIGHT_NUMBERS = 1"
definition HL_HIGHLIGHT_STRINGS :: int where "HL_HIGHLIGHT_STRINGS = 2"

lemmas key_defs = BACKSPACE_def ARROW_UP_def ARROW_DOWN_def ARROW_LEFT_def
  ARROW_RIGHT_def DEL_KEY_def HOME_KEY_def END_KEY_def PAGE_UP_def PAGE_DOWN_def

text \<open>
  A \<open>char\<close> converted to \<open>int\<close>. Plain \<open>char\<close> is taken as signed (as on the
  x86 ABIs), so bytes from 128 on are negative; either way they stay apart from the
  key codes from 1000 on.
\<close>

definition char_int :: "char \<Rightarrow> int" where
  "char_int c = (let n = of_char c in if n < 128 then n else n - 256)"

definition CTRL_KEY :: "char \<Rightarrow> int" where
  "CTRL_KEY k = char_int k AND 0x1F"

definition ESC :: char where "ESC = CHR 0x1B"
definition TAB :: char where "TAB = CHR 0x09"
definition NUL :: char where "NUL = CHR 0x00"
definition CR :: char where "CR = CHR 0x0D"
definition NEWLINE :: char where "NEWLINE = CHR 0x0A"

section \<open>Terminal input: \<open>editorReadKey\<close>\<close>

text \<open>
  One call of \<open>read(STDIN_FILENO, &c, 1)\<close> in raw mode (\<open>VMIN = 0\<close>, \<open>VTIME = 1\<close>)
  either delivers a byte, or returns without one (0, or -1 with \<open>EAGAIN\<close>), or
  fails with another error. The input is the list of these results in the order the
  reads see them; past its end every read times out.
\<close>

datatype read_result = Got char | Timeout | Failed

text \<open>
  \<open>Key k rest\<close>: the decoder returned \<open>k\<close>, \<open>rest\<close> is the unread input.
  \<open>Died\<close>: \<open>die("read")\<close>. \<open>Starved\<close>: the first loop polls for ever, no byte comes.
\<close>

datatype key_result = Key int "read_result list" | Died | Starved

text \<open>A read inside an escape sequence: anything but a byte makes \<open>read(...) != 1\<close>.\<close>

fun read1 :: "read_result list \<Rightarrow> char option \<times> read_result list" where
  "read1 [] = (None, [])"
| "read1 (Got c # evs) = (Some c, evs)"
| "read1 (Timeout # evs) = (None, evs)"
| "read1 (Failed # evs) = (None, evs)"

definition digit_key :: "char \<Rightarrow> int" where
  "digit_key d =
    (if d = CHR ''1'' then HOME_KEY
     else if d = CHR ''3'' then DEL_KEY
     else if d = CHR ''4'' then END_KEY
     else if d = CHR ''5'' then PAGE_UP
     else if d = CHR ''6'' then PAGE_DOWN
     else if d = CHR ''7'' then HOME_KEY
     else if d = CHR ''8'' then END_KEY
     else char_int ESC)"

definition bracket_key :: "char \<Rightarrow> int" where
  "bracket_key d =
    (if d = CHR ''A'' then ARROW_UP
     else if d = CHR ''B'' then ARROW_DOWN
     else if d = CHR ''C'' then ARROW_RIGHT
     else if d = CHR ''D'' then ARROW_LEFT
     else if d = CHR ''H'' then HOME_KEY
     else if d = CHR ''F'' then END_KEY
     else char_int ESC)"

definition o_key :: "char \<Rightarrow> int" where
  "o_key d =
    (if d = CHR ''H'' then HOME_KEY
     else if d = CHR ''F'' then END_KEY
     else char_int ESC)"

definition isdigit :: "char \<Rightarrow> bool" where
  "isdigit c = (48 \<le> (of_char c :: nat) \<and> (of_char c :: nat) \<le> 57)"

text \<open>The body of \<open>if (c == '\x1b') { ... }\<close>.\<close>

definition read_escape :: "read_result list \<Rightarrow> key_result" where
  "read_escape evs =
    (case read1 evs of
       (None, r0) \<Rightarrow> Key (char_int ESC) r0
     | (Some s0, r0) \<Rightarrow>
        (case read1 r0 of
           (None, r1) \<Rightarrow> Key (char_int ESC) r1
         | (Some s1, r1) \<Rightarrow>
            if s0 = CHR ''['' then
              if isdigit s1 then
                (case read1 r1 of
                   (None, r2) \<Rightarrow> Key (char_int ESC) r2
                 | (Some s2, r2) \<Rightarrow>
                     if s2 = CHR ''~'' then Key (digit_key s1) r2
                     else Key (char_int ESC) r2)
              else Key (bracket_key s1) r1
            else if s0 = CHR ''O'' then Key (o_key s1) r1
            else Key (char_int ESC) r1))"

fun editorReadKey :: "read_result list \<Rightarrow> key_result" where
  "editorReadKey [] = Starved"
| "editorReadKey (Timeout # evs) = editorReadKey evs"
| "editorReadKey (Failed # evs) = Died"
| "editorReadKey (Got c # evs) =
     (if c = ESC then read_escape evs else Key (char_int c) evs)"

section \<open>Syntax highlighting\<close>

definition is_space_char :: "char \<Rightarrow> bool" where
  "is_space_char c = (c = CHR '' '' \<or> (9 \<le> (of_char c :: nat) \<and> (of_char c :: nat) \<le> 13))"

definition is_separator :: "char \<Rightarrow> bool" where
  "is_separator c = (is_space_char c \<or> c = NUL \<or> c \<in> set '',.()+-/*=~%<>[];'')"

text \<open>
  \<open>strncmp(&row->render[i], scs, scs_len) == 0\<close>: the marker has no NUL inside, so the
  comparison succeeds exactly when the next \<open>scs_len\<close> bytes of the row are the marker
  (running into the row's terminating NUL is a mismatch).
\<close>

definition starts_with_at :: "string \<Rightarrow> nat \<Rightarrow> string \<Rightarrow> bool" where
  "starts_with_at rnd i scs = (take (length scs) (drop i rnd) = scs)"

definition has_flag :: "editorSyntax \<Rightarrow> int \<Rightarrow> bool" where
  "has_flag syn f = (flags syn AND f \<noteq> 0)"

text \<open>
  \<open>prev_hl\<close> and \<open>scs\<close> as \<open>editorUpdateSyntax\<close> computes them: the highlight of
  the byte before \<open>i\<close> (\<open>HL_NORMAL\<close> at the start of the row), and the comment marker
  (empty when there is none, so that \<open>scs_len\<close> is 0).
\<close>

definition prev_hl_at :: "editorHighlight list \<Rightarrow> nat \<Rightarrow> editorHighlight" where
  "prev_hl_at h i = (if i > 0 then h ! (i - 1) else HL_NORMAL)"

definition scs_of :: "editorSyntax \<Rightarrow> string" where
  "scs_of syn = (case singleline_comment_start syn of None \<Rightarrow> [] | Some m \<Rightarrow> m)"

text \<open>
  The \<open>while (i < row->rsize)\<close> loop of \<open>editorUpdateSyntax\<close>. \<open>h\<close> is the
  highlight buffer, \<open>in_string\<close> is NUL or the opening quote.
\<close>

function syntax_loop ::
  "editorSyntax \<Rightarrow> string \<Rightarrow> editorHighlight list \<Rightarrow> bool \<Rightarrow> char \<Rightarrow> nat \<Rightarrow> editorHighlight list"
where
  "syntax_loop syn rnd h prev_sep in_string i =
    (if \<not> i < length rnd then h
     else
       let c = rnd ! i;
           prev_hl = prev_hl_at h i;
           scs = scs_of syn
       in
       if scs \<noteq> [] \<and> in_string = NUL \<and> starts_with_at rnd i scs
         then take i h @ replicate (length rnd - i) HL_COMMENT
       else if has_flag syn HL_HIGHLIGHT_STRINGS \<and> in_string \<noteq> NUL then
         (if c = CHR 0x5C \<and> i + 1 < length rnd
            then syntax_loop syn rnd (h[i := HL_STRING, i + 1 := HL_STRING]) prev_sep in_string (i + 2)
          else syntax_loop syn rnd (h[i := HL_STRING]) True
                 (if c = in_string then NUL else in_string) (i + 1))
       else if has_flag syn HL_HIGHLIGHT_STRINGS \<and> (c = CHR 0x22 \<or> c = CHR 0x27)
         then syntax_loop syn rnd (h[i := HL_STRING]) prev_sep c (i + 1)
       else if has_flag syn HL_HIGHLIGHT_NUMBERS \<and>
               ((isdigit c \<and> (prev_sep \<or> prev_hl = HL_NUMBER)) \<or>
                (c = CHR ''.'' \<and> prev_hl = HL_NUMBER))
         then syntax_loop syn rnd (h[i := HL_NUMBER]) False in_string (i + 1)
       else syntax_loop syn rnd h (is_separator c) in_string (i + 1))"
  by pat_completeness auto
termination
  by (relation "measure (\<lambda>(syn, rnd, h, prev_sep, in_string, i). length rnd - i)") auto

definition editorUpdateSyntax :: "editorSyntax option \<Rightarrow> erow \<Rightarrow> erow" where
  "editorUpdateSyntax syn r =
    (let h0 = replicate (length (render r)) HL_NORMAL in
     case syn of
       None \<Rightarrow> r\<lparr>hl := h0\<rparr>
     | Some s \<Rightarrow> r\<lparr>hl := syntax_loop s (render r) h0 True NUL 0\<rparr>)"

section \<open>Row operations\<close>

text \<open>One step of both conversions: a tab moves to the next tab stop, any other byte
  one column.\<close>

definition advance_rx :: "int \<Rightarrow> char \<Rightarrow> int" where
  "advance_rx r c =
     (if c = TAB then r + ((EDI_TAB_STOP - 1) - (r mod EDI_TAB_STOP)) else r) + 1"

text \<open>\<open>for (j = 0; j < cx; j++)\<close> over \<open>row->chars\<close>; callers keep \<open>cx \<le> size\<close>.\<close>

definition editorRowCxToRx :: "erow \<Rightarrow> int \<Rightarrow> int" where
  "editorRowCxToRx r k = foldl advance_rx 0 (take (nat k) (chars r))"

text \<open>The loop of \<open>editorRowRxToCx\<close> over the bytes not yet visited, with the two
  counters \<open>curr_rx\<close> and \<open>cx\<close>.\<close>

fun rx_loop :: "string \<Rightarrow> int \<Rightarrow> int \<Rightarrow> int \<Rightarrow> int" where
  "rx_loop [] target curr_rx k = k"
| "rx_loop (c # cs) target curr_rx k =
     (let curr_rx' = advance_rx curr_rx c in
      if curr_rx' > target then k else rx_loop cs target curr_rx' (k + 1))"

definition editorRowRxToCx :: "erow \<Rightarrow> int \<Rightarrow> int" where
  "editorRowRxToCx r target = rx_loop (chars r) target 0 0"

text \<open>The inner \<open>while (idx % EDI_TAB_STOP != 0)\<close> of \<open>editorUpdateRow\<close>; \<open>idx\<close> is
  the length of the render buffer written so far.\<close>

function tab_fill :: "string \<Rightarrow> string" where
  "tab_fill out = (if int (length out) mod EDI_TAB_STOP \<noteq> 0 then tab_fill (out @ [CHR '' '']) else out)"
  by pat_completeness auto
termination
proof (relation "measure (\<lambda>out. 7 - (length out + 7) mod 8)")
  fix out :: string
  assume "int (length out) mod EDI_TAB_STOP \<noteq> 0"
  then have "int (length out) mod 8 \<noteq> 0"
    by (simp add: EDI_TAB_STOP_def)
  then have "7 - (Suc (length out) + 7) mod 8 < 7 - (length out + 7) mod 8"
    by presburger
  then show "(out @ [CHR '' ''], out) \<in> measure (\<lambda>out. 7 - (length out + 7) mod 8)"
    by simp
qed simp

definition render_step :: "string \<Rightarrow> char \<Rightarrow> string" where
  "render_step out c = (if c = TAB then tab_fill (out @ [CHR '' '']) else out @ [c])"

definition editorUpdateRow :: "editorSyntax option \<Rightarrow> erow \<Rightarrow> erow" where
  "editorUpdateRow syn r = editorUpdateSyntax syn (r\<lparr>render := foldl render_step [] (chars r)\<rparr>)"

text \<open>
  \<open>editorInsertRow(at, s, len)\<close>: the second argument is the \<open>len\<close> bytes copied.
\<close>

definition editorInsertRow :: "int \<Rightarrow> string \<Rightarrow> editorConfig \<Rightarrow> editorConfig" where
  "editorInsertRow at s E =
    (if at < 0 \<or> at > num_rows E then E
     else E\<lparr>row := take (nat at) (row E)
                    @ [editorUpdateRow (syntax_sel E) \<lparr>chars = s, render = [], hl = []\<rparr>]
                    @ drop (nat at) (row E),
             dirty := dirty E + 1\<rparr>)"

definition editorDelRow :: "int \<Rightarrow> editorConfig \<Rightarrow> editorConfig" where
  "editorDelRow at E =
    (if at < 0 \<or> at \<ge> num_rows E then E
     else E\<lparr>row := take (nat at) (row E) @ drop (nat at + 1) (row E),
             dirty := dirty E + 1\<rparr>)"

text \<open>
  The next three functions take \<open>erow* row\<close> in C, always of the form
  \<open>&E.row[i]\<close>; the model passes the index \<open>i\<close>.
\<close>

definition editorRowInsertChar :: "int \<Rightarrow> int \<Rightarrow> int \<Rightarrow> editorConfig \<Rightarrow> editorConfig" where
  "editorRowInsertChar i at c E =
    (let r = row E ! nat i;
         at' = (if at < 0 \<or> at > row_size r then row_size r else at);
         r' = r\<lparr>chars := take (nat at') (chars r) @ [char_of c] @ drop (nat at') (chars r)\<rparr>
     in E\<lparr>row := (row E)[nat i := editorUpdateRow (syntax_sel E) r'], dirty := dirty E + 1\<rparr>)"

definition editorRowAppendString :: "int \<Rightarrow> string \<Rightarrow> editorConfig \<Rightarrow> editorConfig" where
  "editorRowAppendString i s E =
    (let r = row E ! nat i;
         r' = r\<lparr>chars := chars r @ s\<rparr>
     in E\<lparr>row := (row E)[nat i := editorUpdateRow (syntax_sel E) r'], dirty := dirty E + 1\<rparr>)"

definition editorRowDelChar :: "int \<Rightarrow> int \<Rightarrow> editorConfig \<Rightarrow> editorConfig" where
  "editorRowDelChar i at E =
    (let r = row E ! nat i in
     if at < 0 \<or> at \<ge> row_size r then E
     else
       let r' = r\<lparr>chars := take (nat at) (chars r) @ drop (nat at + 1) (chars r)\<rparr>
       in E\<lparr>row := (row E)[nat i := editorUpdateRow (syntax_sel E) r'], dirty := dirty E + 1\<rparr>)"

section \<open>Editor operations\<close>

definition editorInsertChar :: "int \<Rightarrow> editorConfig \<Rightarrow> editorConfig" where
  "editorInsertChar c E =
    (let E1 = (if cy E = num_rows E then editorInsertRow (num_rows E) [] E else E);
         E2 = editorRowInsertChar (cy E1) (cx E1) c E1
     in E2\<lparr>cx := cx E2 + 1\<rparr>)"

definition editorInsertNewline :: "editorConfig \<Rightarrow> editorConfig" where
  "editorInsertNewline E =
    (let E2 =
       (if cx E = 0 then editorInsertRow (cy E) [] E
        else
          let r = row E ! nat (cy E);
              E1 = editorInsertRow (cy E + 1) (drop (nat (cx E)) (chars r)) E;
              r1 = row E1 ! nat (cy E1);
              r2 = r1\<lparr>chars := take (nat (cx E1)) (chars r1)\<rparr>
          in E1\<lparr>row := (row E1)[nat (cy E1) := editorUpdateRow (syntax_sel E1) r2]\<rparr>)
     in E2\<lparr>cy := cy E2 + 1, cx := 0\<rparr>)"

definition editorDelChar :: "editorConfig \<Rightarrow> editorConfig" where
  "editorDelChar E =
    (if cy E = num_rows E then E
     else if cx E = 0 \<and> cy E = 0 then E
     else if cx E > 0 then
       (let E1 = editorRowDelChar (cy E) (cx E - 1) E in E1\<lparr>cx := cx E1 - 1\<rparr>)
     else
       (let r = row E ! nat (cy E);
            E1 = E\<lparr>cx := row_size (row E ! nat (cy E - 1))\<rparr>;
            E2 = editorRowAppendString (cy E1 - 1) (chars r) E1;
            E3 = editorDelRow (cy E2) E2
        in E3\<lparr>cy := cy E3 - 1\<rparr>))"

section \<open>File I/O\<close>

text \<open>
  \<open>editorRowsToString\<close>: the first loop sums the lengths, the second copies each row
  and a newline behind it. The result is the buffer and \<open>*buff_len\<close>.
\<close>

definition editorRowsToString :: "editorConfig \<Rightarrow> string \<times> int" where
  "editorRowsToString E =
    (let total_len = foldl (\<lambda>n r. n + (row_size r + 1)) 0 (row E);
         buff = foldl (\<lambda>b r. b @ chars r @ [NEWLINE]) [] (row E)
     in (buff, total_len))"

section \<open>Syntax selection\<close>

definition HLDB :: "editorSyntax list" where
  "HLDB = [\<lparr>file_type = ''c'', file_match = [''.c'', ''.h'', ''.cpp''],
            singleline_comment_start = Some ''//'',
            flags = HL_HIGHLIGHT_NUMBERS OR HL_HIGHLIGHT_STRINGS\<rparr>]"

text \<open>\<open>strrchr\<close>: the suffix that starts at the last occurrence of the byte.\<close>

fun strrchr :: "string \<Rightarrow> char \<Rightarrow> string option" where
  "strrchr [] c = None"
| "strrchr (x # xs) c =
     (case strrchr xs c of
        Some t \<Rightarrow> Some t
      | None \<Rightarrow> if x = c then Some (x # xs) else None)"

text \<open>\<open>strstr\<close> on strings without NUL: the offset of the first occurrence.\<close>

fun strstr :: "string \<Rightarrow> string \<Rightarrow> nat option" where
  "strstr [] needle = (if needle = [] then Some 0 else None)"
| "strstr (x # xs) needle =
     (if take (length needle) (x # xs) = needle then Some 0
      else map_option Suc (strstr xs needle))"

text \<open>A buffer read as a C string ends at its first NUL.\<close>

definition c_str :: "string \<Rightarrow> string" where
  "c_str s = takeWhile (\<lambda>c. c \<noteq> NUL) s"

definition file_matches :: "string \<Rightarrow> string \<Rightarrow> bool" where
  "file_matches fname pat =
    (let is_ext = (case pat of [] \<Rightarrow> False | c # _ \<Rightarrow> c = CHR ''.'');
         ext = strrchr fname (CHR ''.'')
     in (is_ext \<and> ext = Some pat) \<or> (\<not> is_ext \<and> strstr fname pat \<noteq> None))"

definition editorSelectSyntaxHighlight :: "editorConfig \<Rightarrow> editorConfig" where
  "editorSelectSyntaxHighlight E =
    (let E1 = E\<lparr>syntax_sel := None\<rparr> in
     case filename E1 of
       None \<Rightarrow> E1
     | Some fname \<Rightarrow>
        (case find (\<lambda>s. list_ex (file_matches fname) (file_match s)) HLDB of
           None \<Rightarrow> E1
         | Some s \<Rightarrow> E1\<lparr>syntax_sel := Some s,
                          row := map (editorUpdateSyntax (Some s)) (row E1)\<rparr>))"

section \<open>Find\<close>

text \<open>
  The \<open>for\<close> loop of \<open>editorFindCallback\<close>; the last argument counts the iterations
  left. On a match the result is the row index and the offset \<open>match - row->render\<close>.
\<close>

fun find_loop :: "erow list \<Rightarrow> string \<Rightarrow> int \<Rightarrow> int \<Rightarrow> nat \<Rightarrow> (int \<times> nat) option" where
  "find_loop rs query d current 0 = None"
| "find_loop rs query d current (Suc n) =
     (let c1 = current + d;
          c2 = (if c1 = -1 then int (length rs) - 1
                else if c1 = int (length rs) then 0 else c1)
      in case strstr (c_str (render (rs ! nat c2))) query of
           Some off \<Rightarrow> Some (c2, off)
         | None \<Rightarrow> find_loop rs query d c2 n)"

text \<open>\<open>memcpy(dst, src, n)\<close> and \<open>memset(&dst[off], v, n)\<close> on list buffers.\<close>

definition memcpy :: "'a list \<Rightarrow> 'a list \<Rightarrow> nat \<Rightarrow> 'a list" where
  "memcpy dst src n = take n src @ drop n dst"

definition memset :: "'a list \<Rightarrow> nat \<Rightarrow> 'a \<Rightarrow> nat \<Rightarrow> 'a list" where
  "memset dst off v n = take off dst @ replicate n v @ drop (off + n) dst"

text \<open>
  \<open>editorFindCallback\<close> in its three parts: the restore of the saved highlight, the
  key handling up to \<open>if (last_match == -1) direction = 1\<close>, and the search with
  what it does on a match.
\<close>

definition find_restore :: "editorConfig \<Rightarrow> editorConfig" where
  "find_restore E =
    (case saved_hl E of
       None \<Rightarrow> E
     | Some sv \<Rightarrow>
         let l = nat (saved_hl_line E); r = row E ! l
         in E\<lparr>row := (row E)[l := r\<lparr>hl := memcpy (hl r) sv (length (render r))\<rparr>],
               saved_hl := None\<rparr>)"

definition find_direction :: "int \<Rightarrow> editorConfig \<Rightarrow> editorConfig" where
  "find_direction key E =
    (let E2 = (if key = ARROW_RIGHT \<or> key = ARROW_DOWN then E\<lparr>direction := 1\<rparr>
               else if key = ARROW_LEFT \<or> key = ARROW_UP then E\<lparr>direction := -1\<rparr>
               else E\<lparr>last_match := -1, direction := 1\<rparr>)
     in if last_match E2 = -1 then E2\<lparr>direction := 1\<rparr> else E2)"

definition find_search :: "string \<Rightarrow> editorConfig \<Rightarrow> editorConfig" where
  "find_search query E =
    (case find_loop (row E) query (direction E) (last_match E) (length (row E)) of
       None \<Rightarrow> E
     | Some (current, off) \<Rightarrow>
         let r = row E ! nat current
         in E\<lparr>last_match := current,
                cy := current,
                cx := editorRowRxToCx r (int off),
                row_offset := num_rows E,
                saved_hl_line := current,
                saved_hl := Some (take (length (render r)) (hl r)),
                row := (row E)[nat current := r\<lparr>hl := memset (hl r) off HL_MATCH (length query)\<rparr>]\<rparr>)"

definition editorFindCallback :: "string \<Rightarrow> int \<Rightarrow> editorConfig \<Rightarrow> editorConfig" where
  "editorFindCallback query key E =
    (let E1 = find_restore E in
     if key = char_int CR \<or> key = char_int ESC then E1\<lparr>last_match := -1, direction := 1\<rparr>
     else find_search query (find_direction key E1))"

section \<open>Output\<close>

text \<open>\<open>editorScroll\<close> is five statements in a row; each is a step of its own here.\<close>

definition scroll_rx :: "editorConfig \<Rightarrow> editorConfig" where
  "scroll_rx E =
    (let E1 = E\<lparr>rx := 0\<rparr>
     in if cy E1 < num_rows E1
        then E1\<lparr>rx := editorRowCxToRx (row E1 ! nat (cy E1)) (cx E1)\<rparr> else E1)"

definition scroll_row_up :: "editorConfig \<Rightarrow> editorConfig" where
  "scroll_row_up E = (if cy E < row_offset E then E\<lparr>row_offset := cy E\<rparr> else E)"

definition scroll_row_down :: "editorConfig \<Rightarrow> editorConfig" where
  "scroll_row_down E =
    (if cy E \<ge> row_offset E + screen_rows E
     then E\<lparr>row_offset := cy E - screen_rows E + 1\<rparr> else E)"

definition scroll_col_left :: "editorConfig \<Rightarrow> editorConfig" where
  "scroll_col_left E = (if rx E < col_offset E then E\<lparr>col_offset := rx E\<rparr> else E)"

definition scroll_col_right :: "editorConfig \<Rightarrow> editorConfig" where
  "scroll_col_right E =
    (if rx E \<ge> col_offset E + screen_cols E
     then E\<lparr>col_offset := rx E - screen_cols E + 1\<rparr> else E)"

definition editorScroll :: "editorConfig \<Rightarrow> editorConfig" where
  "editorScroll E =
     scroll_col_right (scroll_col_left (scroll_row_down (scroll_row_up (scroll_rx E))))"

section \<open>Input\<close>

definition current_row :: "editorConfig \<Rightarrow> erow option" where
  "current_row E = (if cy E \<ge> num_rows E then None else Some (row E ! nat (cy E)))"

text \<open>\<open>editorMoveCursor\<close>: the \<open>switch\<close>, then the clamp of \<open>cx\<close> to the row
  the cursor is on now.\<close>

definition move_key :: "int \<Rightarrow> editorConfig \<Rightarrow> editorConfig" where
  "move_key key E =
    (if key = ARROW_LEFT then
       (if cx E \<noteq> 0 then E\<lparr>cx := cx E - 1\<rparr>
        else if cy E > 0 then E\<lparr>cy := cy E - 1, cx := row_size (row E ! nat (cy E - 1))\<rparr>
        else E)
     else if key = ARROW_RIGHT then
       (case current_row E of
          None \<Rightarrow> E
        | Some r \<Rightarrow>
            if cx E < row_size r then E\<lparr>cx := cx E + 1\<rparr>
            else if cx E = row_size r then E\<lparr>cy := cy E + 1, cx := 0\<rparr>
            else E)
     else if key = ARROW_UP then
       (if cy E \<noteq> 0 then E\<lparr>cy := cy E - 1\<rparr> else E)
     else if key = ARROW_DOWN then
       (if cy E < num_rows E then E\<lparr>cy := cy E + 1\<rparr> else E)
     else E)"

definition clamp_cx :: "editorConfig \<Rightarrow> editorConfig" where
  "clamp_cx E =
    (let row_len = (case current_row E of None \<Rightarrow> 0 | Some r \<Rightarrow> row_size r)
     in if cx E > row_len then E\<lparr>cx := row_len\<rparr> else E)"

definition editorMoveCursor :: "int \<Rightarrow> editorConfig \<Rightarrow> editorConfig" where
  "editorMoveCursor key E = clamp_cx (move_key key E)"

text \<open>
  From here on the input is the list of keys that the successive calls of
  \<open>editorReadKey\<close> return. When it is used up the editor sits in the read loop:
  \<open>PromptStarved\<close> and \<open>Waiting\<close> carry the state it waits in.
\<close>

datatype prompt_result =
  Answered "string option" editorConfig "int list"
| PromptStarved editorConfig

definition iscntrl :: "int \<Rightarrow> bool" where
  "iscntrl c = ((0 \<le> c \<and> c \<le> 31) \<or> c = 127)"

definition call_back ::
  "(string \<Rightarrow> int \<Rightarrow> editorConfig \<Rightarrow> editorConfig) option \<Rightarrow> string \<Rightarrow> int \<Rightarrow> editorConfig \<Rightarrow> editorConfig"
where
  "call_back cb buff c E = (case cb of None \<Rightarrow> E | Some f \<Rightarrow> f buff c E)"

text \<open>
  \<open>editorPrompt\<close>: every round redraws the screen (\<open>editorRefreshScreen\<close> changes the
  state through \<open>editorScroll\<close> only), reads a key and edits \<open>buff\<close>.
\<close>

fun editorPrompt ::
  "(string \<Rightarrow> int \<Rightarrow> editorConfig \<Rightarrow> editorConfig) option \<Rightarrow> string \<Rightarrow> int list
     \<Rightarrow> editorConfig \<Rightarrow> prompt_result"
where
  "editorPrompt cb buff [] E = PromptStarved (editorScroll E)"
| "editorPrompt cb buff (c # ks) E =
    (let E1 = editorScroll E in
     if c = DEL_KEY \<or> c = CTRL_KEY (CHR ''h'') \<or> c = BACKSPACE then
       editorPrompt cb (butlast buff) ks (call_back cb (butlast buff) c E1)
     else if c = char_int ESC then
       Answered None (call_back cb buff c E1) ks
     else if c = char_int CR then
       (if buff \<noteq> [] then Answered (Some buff) (call_back cb buff c E1) ks
        else editorPrompt cb buff ks (call_back cb buff c E1))
     else if \<not> iscntrl c \<and> c < 128 then
       editorPrompt cb (buff @ [char_of c]) ks (call_back cb (buff @ [char_of c]) c E1)
     else editorPrompt cb buff ks (call_back cb buff c E1))"

text \<open>
  What a key handler leaves behind: the editor goes on with the remaining keys, or waits
  for input, or the process has exited, or the C code has no defined behaviour.
\<close>

datatype outcome =
  Continue editorConfig "int list"
| Waiting editorConfig
| Exited
| Undefined

definition editorFind :: "int list \<Rightarrow> editorConfig \<Rightarrow> outcome" where
  "editorFind ks E =
    (case editorPrompt (Some editorFindCallback) [] ks E of
       PromptStarved E' \<Rightarrow> Waiting E'
     | Answered (Some query) E' ks' \<Rightarrow> Continue E' ks'
     | Answered None E' ks' \<Rightarrow>
         Continue (E'\<lparr>cx := cx E, cy := cy E,
                       col_offset := col_offset E, row_offset := row_offset E\<rparr>) ks')"

text \<open>
  \<open>editorSave\<close>; \<open>fs_ok\<close> says whether \<open>open\<close>, \<open>ftruncate\<close> and \<open>write\<close> all
  succeed. The bytes written are \<open>editorRowsToString\<close>.
\<close>

definition write_out :: "bool \<Rightarrow> editorConfig \<Rightarrow> editorConfig" where
  "write_out fs_ok E = (if fs_ok then E\<lparr>dirty := 0\<rparr> else E)"

definition editorSave :: "bool \<Rightarrow> int list \<Rightarrow> editorConfig \<Rightarrow> outcome" where
  "editorSave fs_ok ks E =
    (case filename E of
       Some fname \<Rightarrow> Continue (write_out fs_ok E) ks
     | None \<Rightarrow>
        (case editorPrompt None [] ks E of
           PromptStarved E' \<Rightarrow> Waiting E'
         | Answered None E' ks' \<Rightarrow> Continue E' ks'
         | Answered (Some fname) E' ks' \<Rightarrow>
             Continue (write_out fs_ok (editorSelectSyntaxHighlight (E'\<lparr>filename := Some fname\<rparr>))) ks'))"

text \<open>
  The \<open>switch\<close> of \<open>editorProcessKeypress\<close> on the key \<open>c\<close> just read. Every branch
  but the refused quit ends in \<open>quit_times = EDI_QUIT_TIMES\<close>. The paging loop
  \<open>while (rows--)\<close> starts from \<open>screen_rows\<close>; from a negative start it counts down
  until the counter overflows, which C leaves undefined.
\<close>

definition reset_quit :: "outcome \<Rightarrow> outcome" where
  "reset_quit out =
    (case out of
       Continue E ks \<Rightarrow> Continue (E\<lparr>quit_times := EDI_QUIT_TIMES\<rparr>) ks
     | other \<Rightarrow> other)"

definition dispatch_key :: "bool \<Rightarrow> int \<Rightarrow> int list \<Rightarrow> editorConfig \<Rightarrow> outcome" where
  "dispatch_key fs_ok c ks E =
    (if c = char_int CR then reset_quit (Continue (editorInsertNewline E) ks)
     else if c = CTRL_KEY (CHR ''q'') then
       (if dirty E \<noteq> 0 \<and> quit_times E > 0
        then Continue (E\<lparr>quit_times := quit_times E - 1\<rparr>) ks
        else Exited)
     else if c = CTRL_KEY (CHR ''s'') then reset_quit (editorSave fs_ok ks E)
     else if c = HOME_KEY then reset_quit (Continue (E\<lparr>cx := 0\<rparr>) ks)
     else if c = END_KEY then
       reset_quit (Continue (if cy E < num_rows E
                             then E\<lparr>cx := row_size (row E ! nat (cy E))\<rparr> else E) ks)
     else if c = CTRL_KEY (CHR ''f'') then reset_quit (editorFind ks E)
     else if c = BACKSPACE \<or> c = CTRL_KEY (CHR ''h'') \<or> c = DEL_KEY then
       reset_quit (Continue (editorDelChar
                     (if c = DEL_KEY then editorMoveCursor ARROW_RIGHT E else E)) ks)
     else if c = PAGE_UP \<or> c = PAGE_DOWN then
       (let E1 = (if c = PAGE_UP then E\<lparr>cy := row_offset E\<rparr>
                  else
                    let E0 = E\<lparr>cy := row_offset E + screen_rows E - 1\<rparr>
                    in if cy E0 > num_rows E0 then E0\<lparr>cy := num_rows E0\<rparr> else E0)
        in if screen_rows E1 < 0 then Undefined
           else reset_quit (Continue
                  ((editorMoveCursor (if c = PAGE_UP then ARROW_UP else ARROW_DOWN)
                      ^^ nat (screen_rows E1)) E1) ks))
     else if c = ARROW_UP \<or> c = ARROW_DOWN \<or> c = ARROW_LEFT \<or> c = ARROW_RIGHT then
       reset_quit (Continue (editorMoveCursor c E) ks)
     else if c = CTRL_KEY (CHR ''l'') \<or> c = char_int ESC then reset_quit (Continue E ks)
     else reset_quit (Continue (editorInsertChar c E) ks))"

definition editorProcessKeypress :: "bool \<Rightarrow> int list \<Rightarrow> editorConfig \<Rightarrow> outcome" where
  "editorProcessKeypress fs_ok ks E =
    (case ks of [] \<Rightarrow> Waiting E | c # ks' \<Rightarrow> dispatch_key fs_ok c ks' E)"

section \<open>Init and the main loop\<close>

text \<open>
  \<open>initEditor\<close> for a terminal of the given size: the last two rows are kept for the
  status and message bars.
\<close>

definition initEditor :: "int \<Rightarrow> int \<Rightarrow> editorConfig" where
  "initEditor term_rows term_cols =
    \<lparr>cx = 0, cy = 0, rx = 0, row_offset = 0, col_offset = 0,
     screen_rows = term_rows - 2, screen_cols = term_cols,
     row = [], dirty = 0, filename = None, syntax_sel = None,
     quit_times = EDI_QUIT_TIMES, last_match = -1, direction = 1,
     saved_hl_line = 0, saved_hl = None\<rparr>"

text \<open>One round of \<open>while (1) { editorRefreshScreen(); editorProcessKeypress(); }\<close>.\<close>

definition main_step :: "bool \<Rightarrow> int list \<Rightarrow> editorConfig \<Rightarrow> outcome" where
  "main_step fs_ok ks E = editorProcessKeypress fs_ok ks (editorScroll E)"

section \<open>The decoding table of the specification\<close>

text \<open>
  The table of section 4.1 of the specification, written from its words and not from the
  code, to compare \<open>editorReadKey\<close> with: the bytes that follow the escape byte and the
  key they stand for. \<open>spec_table_key\<close> looks up the entry that the bytes start with
  and falls back to the literal escape key.
\<close>

definition spec_decoding_table :: "(string \<times> int) list" where
  "spec_decoding_table =
    [(''[A'', ARROW_UP), (''[B'', ARROW_DOWN), (''[C'', ARROW_RIGHT), (''[D'', ARROW_LEFT),
     (''[H'', HOME_KEY), (''OH'', HOME_KEY), (''[F'', END_KEY), (''OF'', END_KEY),
     (''[1~'', HOME_KEY), (''[7~'', HOME_KEY), (''[3~'', DEL_KEY),
     (''[4~'', END_KEY), (''[8~'', END_KEY), (''[5~'', PAGE_UP), (''[6~'', PAGE_DOWN)]"

definition spec_table_key :: "string \<Rightarrow> int" where
  "spec_table_key bs =
    (case find (\<lambda>(p, k). take (length p) bs = p) spec_decoding_table of
       Some (p, k) \<Rightarrow> k
     | None \<Rightarrow> char_int ESC)"

section \<open>Example documents\<close>

text \<open>The document with the rows \<open>a\<close> and \<open>bb\<close>, built by \<open>editorInsertRow\<close>.\<close>

definition two_rows :: editorConfig where
  "two_rows = editorInsertRow 1 ''bb'' (editorInsertRow 0 ''a'' (initEditor 24 80))"



text \<open>The document with the rows \<open>foo\<close>, \<open>bar\<close> and \<open>baz\<close>.\<close>

definition three_rows :: editorConfig where
  "three_rows = editorInsertRow 2 ''baz'' (editorInsertRow 1 ''bar'' (editorInsertRow 0 ''foo'' (initEditor 24 80)))"

text \<open>
  The search in the specification's words: from \<open>last_match + direction\<close> on, one row
  after the other in that direction, wrapping past either end, each row once;
  \<open>spec_contains\<close> says that a byte sequence contains the query as a substring, at any
  offset, and \<open>spec_first_match\<close> is the first row of an order whose render bytes
  contain the query.
\<close>

definition spec_scan_order :: "int \<Rightarrow> int \<Rightarrow> nat \<Rightarrow> int list" where
  "spec_scan_order m d n = map (\<lambda>k. (m + d * (1 + int k)) mod int n) [0..<n]"

definition spec_contains :: "string \<Rightarrow> string \<Rightarrow> bool" where
  "spec_contains s query =
     list_ex (\<lambda>k. take (length query) (drop k s) = query) [0..<Suc (length s)]"

definition spec_first_match :: "erow list \<Rightarrow> string \<Rightarrow> int list \<Rightarrow> int option" where
  "spec_first_match rs query order = find (\<lambda>i. spec_contains (render (rs ! nat i)) query) order"

text \<open>
  The narrower reading: the occurrence of the query has to end before the first zero byte
  of the row. \<open>first_match_before_nul\<close> is the first row of an order with such an
  occurrence.
\<close>

definition contains_before_nul :: "string \<Rightarrow> string \<Rightarrow> bool" where
  "contains_before_nul s query =
     list_ex (\<lambda>k. take (length query) (drop k s) = query
                  \<and> CHR 0x00 \<notin> set (take (k + length query) s))
       [0..<Suc (length s)]"

definition first_match_before_nul :: "erow list \<Rightarrow> string \<Rightarrow> int list \<Rightarrow> int option" where
  "first_match_before_nul rs query order =
     find (\<lambda>i. contains_before_nul (render (rs ! nat i)) query) order"

text \<open>
  The document of a single row that is typed as \<open>x\<close>, the zero byte (Ctrl-Space or
  Ctrl-@), \<open>b\<close>, \<open>a\<close> into the empty editor.
\<close>

definition nul_row_doc :: editorConfig where
  "nul_row_doc =
     editorInsertChar 97 (editorInsertChar 98 (editorInsertChar 0 (editorInsertChar 120
       (initEditor 24 80))))"
section \<open>Invariants\<close>

text \<open>
  A row's highlight buffer has one entry for each rendered byte; a document is fine when
  all its rows are. During a search the saved highlight belongs to a row of the document
  and is as long as that row's render string, and the last match is -1 or a row index.
\<close>

definition row_hl_ok :: "erow \<Rightarrow> bool" where
  "row_hl_ok r = (int (length (hl r)) = rsize r)"

definition hl_ok :: "editorConfig \<Rightarrow> bool" where
  "hl_ok E = list_all row_hl_ok (row E)"

definition saved_ok :: "editorConfig \<Rightarrow> bool" where
  "saved_ok E =
    (case saved_hl E of
       None \<Rightarrow> True
     | Some sv \<Rightarrow>
         0 \<le> saved_hl_line E \<and> saved_hl_line E < num_rows E \<and>
         length sv = length (render (row E ! nat (saved_hl_line E))))"

definition last_match_ok :: "editorConfig \<Rightarrow> bool" where
  "last_match_ok E = (-1 \<le> last_match E \<and> last_match E < num_rows E)"

text \<open>
  The cursor bounds of the specification, and what the code keeps on top of them: on the
  line after the last row the column is 0. Between two keys of the main loop no search is
  open (\<open>last_match\<close> is -1); while the search prompt runs the last match is -1 or a
  row index. Both need a text area of at least one row and a window that does not start
  above the document.
\<close>

definition cursor_ok :: "editorConfig \<Rightarrow> bool" where
  "cursor_ok E =
    (0 \<le> cy E \<and> cy E \<le> num_rows E \<and>
     (cy E < num_rows E \<longrightarrow> 0 \<le> cx E \<and> cx E \<le> row_size (row E ! nat (cy E))))"

definition cursor_inv :: "editorConfig \<Rightarrow> bool" where
  "cursor_inv E = (cursor_ok E \<and> (cy E = num_rows E \<longrightarrow> cx E = 0))"

definition main_inv :: "editorConfig \<Rightarrow> bool" where
  "main_inv E =
    (cursor_inv E \<and> 0 \<le> row_offset E \<and> 1 \<le> screen_rows E \<and> last_match E = -1)"

definition search_inv :: "editorConfig \<Rightarrow> bool" where
  "search_inv E =
    (cursor_inv E \<and> 0 \<le> row_offset E \<and> 1 \<le> screen_rows E \<and> last_match_ok E)"

text \<open>What \<open>editorMoveCursor\<close> needs to put the cursor right: a row index in range and
  a column that is not negative.\<close>

definition cursor_loose :: "editorConfig \<Rightarrow> bool" where
  "cursor_loose E = (0 \<le> cy E \<and> cy E \<le> num_rows E \<and> 0 \<le> cx E)"

text \<open>What a key handler leaves behind is fine when the state it continues with has the
  main-loop invariant, or the state it waits in has the search invariant; an exit is
  fine, undefined behaviour is not.\<close>

definition outcome_ok :: "outcome \<Rightarrow> bool" where
  "outcome_ok out =
    (case out of
       Continue E ks \<Rightarrow> main_inv E
     | Waiting E \<Rightarrow> search_inv E
     | Exited \<Rightarrow> True
     | Undefined \<Rightarrow> False)"

declare tab_fill.simps [simp del]
declare syntax_loop.simps [simp del]

section \<open>What each operation leaves alone\<close>

lemmas scroll_defs = scroll_rx_def scroll_row_up_def scroll_row_down_def
  scroll_col_left_def scroll_col_right_def

lemma editorInsertRow_keeps [simp]:
  "cx (editorInsertRow at s E) = cx E"
  "cy (editorInsertRow at s E) = cy E"
  "rx (editorInsertRow at s E) = rx E"
  "row_offset (editorInsertRow at s E) = row_offset E"
  "col_offset (editorInsertRow at s E) = col_offset E"
  "screen_rows (editorInsertRow at s E) = screen_rows E"
  "screen_cols (editorInsertRow at s E) = screen_cols E"
  "filename (editorInsertRow at s E) = filename E"
  "syntax_sel (editorInsertRow at s E) = syntax_sel E"
  "quit_times (editorInsertRow at s E) = quit_times E"
  "last_match (editorInsertRow at s E) = last_match E"
  "direction (editorInsertRow at s E) = direction E"
  "saved_hl_line (editorInsertRow at s E) = saved_hl_line E"
  "saved_hl (editorInsertRow at s E) = saved_hl E"
  by (simp_all add: editorInsertRow_def)

lemma editorDelRow_keeps [simp]:
  "cx (editorDelRow at E) = cx E"
  "cy (editorDelRow at E) = cy E"
  "rx (editorDelRow at E) = rx E"
  "row_offset (editorDelRow at E) = row_offset E"
  "col_offset (editorDelRow at E) = col_offset E"
  "screen_rows (editorDelRow at E) = screen_rows E"
  "screen_cols (editorDelRow at E) = screen_cols E"
  "filename (editorDelRow at E) = filename E"
  "syntax_sel (editorDelRow at E) = syntax_sel E"
  "quit_times (editorDelRow at E) = quit_times E"
  "last_match (editorDelRow at E) = last_match E"
  "direction (editorDelRow at E) = direction E"
  "saved_hl_line (editorDelRow at E) = saved_hl_line E"
  "saved_hl (editorDelRow at E) = saved_hl E"
  by (simp_all add: editorDelRow_def)

lemma editorRowInsertChar_keeps [simp]:
  "cx (editorRowInsertChar i at c E) = cx E"
  "cy (editorRowInsertChar i at c E) = cy E"
  "rx (editorRowInsertChar i at c E) = rx E"
  "row_offset (editorRowInsertChar i at c E) = row_offset E"
  "col_offset (editorRowInsertChar i at c E) = col_offset E"
  "screen_rows (editorRowInsertChar i at c E) = screen_rows E"
  "screen_cols (editorRowInsertChar i at c E) = screen_cols E"
  "filename (editorRowInsertChar i at c E) = filename E"
  "syntax_sel (editorRowInsertChar i at c E) = syntax_sel E"
  "quit_times (editorRowInsertChar i at c E) = quit_times E"
  "last_match (editorRowInsertChar i at c E) = last_match E"
  "direction (editorRowInsertChar i at c E) = direction E"
  "saved_hl_line (editorRowInsertChar i at c E) = saved_hl_line E"
  "saved_hl (editorRowInsertChar i at c E) = saved_hl E"
  by (simp_all add: editorRowInsertChar_def Let_def)

lemma editorRowAppendString_keeps [simp]:
  "cx (editorRowAppendString i s E) = cx E"
  "cy (editorRowAppendString i s E) = cy E"
  "rx (editorRowAppendString i s E) = rx E"
  "row_offset (editorRowAppendString i s E) = row_offset E"
  "col_offset (editorRowAppendString i s E) = col_offset E"
  "screen_rows (editorRowAppendString i s E) = screen_rows E"
  "screen_cols (editorRowAppendString i s E) = screen_cols E"
  "filename (editorRowAppendString i s E) = filename E"
  "syntax_sel (editorRowAppendString i s E) = syntax_sel E"
  "quit_times (editorRowAppendString i s E) = quit_times E"
  "last_match (editorRowAppendString i s E) = last_match E"
  "direction (editorRowAppendString i s E) = direction E"
  "saved_hl_line (editorRowAppendString i s E) = saved_hl_line E"
  "saved_hl (editorRowAppendString i s E) = saved_hl E"
  by (simp_all add: editorRowAppendString_def Let_def)

lemma editorRowDelChar_keeps [simp]:
  "cx (editorRowDelChar i at E) = cx E"
  "cy (editorRowDelChar i at E) = cy E"
  "rx (editorRowDelChar i at E) = rx E"
  "row_offset (editorRowDelChar i at E) = row_offset E"
  "col_offset (editorRowDelChar i at E) = col_offset E"
  "screen_rows (editorRowDelChar i at E) = screen_rows E"
  "screen_cols (editorRowDelChar i at E) = screen_cols E"
  "filename (editorRowDelChar i at E) = filename E"
  "syntax_sel (editorRowDelChar i at E) = syntax_sel E"
  "quit_times (editorRowDelChar i at E) = quit_times E"
  "last_match (editorRowDelChar i at E) = last_match E"
  "direction (editorRowDelChar i at E) = direction E"
  "saved_hl_line (editorRowDelChar i at E) = saved_hl_line E"
  "saved_hl (editorRowDelChar i at E) = saved_hl E"
  by (simp_all add: editorRowDelChar_def Let_def)

lemma scroll_rx_keeps [simp]:
  "cx (scroll_rx E) = cx E"
  "cy (scroll_rx E) = cy E"
  "row_offset (scroll_rx E) = row_offset E"
  "col_offset (scroll_rx E) = col_offset E"
  "screen_rows (scroll_rx E) = screen_rows E"
  "screen_cols (scroll_rx E) = screen_cols E"
  "row (scroll_rx E) = row E"
  "dirty (scroll_rx E) = dirty E"
  "filename (scroll_rx E) = filename E"
  "syntax_sel (scroll_rx E) = syntax_sel E"
  "quit_times (scroll_rx E) = quit_times E"
  "last_match (scroll_rx E) = last_match E"
  "direction (scroll_rx E) = direction E"
  "saved_hl_line (scroll_rx E) = saved_hl_line E"
  "saved_hl (scroll_rx E) = saved_hl E"
  by (simp_all add: scroll_rx_def Let_def)

lemma scroll_row_up_keeps [simp]:
  "cx (scroll_row_up E) = cx E"
  "cy (scroll_row_up E) = cy E"
  "rx (scroll_row_up E) = rx E"
  "col_offset (scroll_row_up E) = col_offset E"
  "screen_rows (scroll_row_up E) = screen_rows E"
  "screen_cols (scroll_row_up E) = screen_cols E"
  "row (scroll_row_up E) = row E"
  "dirty (scroll_row_up E) = dirty E"
  "filename (scroll_row_up E) = filename E"
  "syntax_sel (scroll_row_up E) = syntax_sel E"
  "quit_times (scroll_row_up E) = quit_times E"
  "last_match (scroll_row_up E) = last_match E"
  "direction (scroll_row_up E) = direction E"
  "saved_hl_line (scroll_row_up E) = saved_hl_line E"
  "saved_hl (scroll_row_up E) = saved_hl E"
  by (simp_all add: scroll_row_up_def)

lemma scroll_row_down_keeps [simp]:
  "cx (scroll_row_down E) = cx E"
  "cy (scroll_row_down E) = cy E"
  "rx (scroll_row_down E) = rx E"
  "col_offset (scroll_row_down E) = col_offset E"
  "screen_rows (scroll_row_down E) = screen_rows E"
  "screen_cols (scroll_row_down E) = screen_cols E"
  "row (scroll_row_down E) = row E"
  "dirty (scroll_row_down E) = dirty E"
  "filename (scroll_row_down E) = filename E"
  "syntax_sel (scroll_row_down E) = syntax_sel E"
  "quit_times (scroll_row_down E) = quit_times E"
  "last_match (scroll_row_down E) = last_match E"
  "direction (scroll_row_down E) = direction E"
  "saved_hl_line (scroll_row_down E) = saved_hl_line E"
  "saved_hl (scroll_row_down E) = saved_hl E"
  by (simp_all add: scroll_row_down_def)

lemma scroll_col_left_keeps [simp]:
  "cx (scroll_col_left E) = cx E"
  "cy (scroll_col_left E) = cy E"
  "rx (scroll_col_left E) = rx E"
  "row_offset (scroll_col_left E) = row_offset E"
  "screen_rows (scroll_col_left E) = screen_rows E"
  "screen_cols (scroll_col_left E) = screen_cols E"
  "row (scroll_col_left E) = row E"
  "dirty (scroll_col_left E) = dirty E"
  "filename (scroll_col_left E) = filename E"
  "syntax_sel (scroll_col_left E) = syntax_sel E"
  "quit_times (scroll_col_left E) = quit_times E"
  "last_match (scroll_col_left E) = last_match E"
  "direction (scroll_col_left E) = direction E"
  "saved_hl_line (scroll_col_left E) = saved_hl_line E"
  "saved_hl (scroll_col_left E) = saved_hl E"
  by (simp_all add: scroll_col_left_def)

lemma scroll_col_right_keeps [simp]:
  "cx (scroll_col_right E) = cx E"
  "cy (scroll_col_right E) = cy E"
  "rx (scroll_col_right E) = rx E"
  "row_offset (scroll_col_right E) = row_offset E"
  "screen_rows (scroll_col_right E) = screen_rows E"
  "screen_cols (scroll_col_right E) = screen_cols E"
  "row (scroll_col_right E) = row E"
  "dirty (scroll_col_right E) = dirty E"
  "filename (scroll_col_right E) = filename E"
  "syntax_sel (scroll_col_right E) = syntax_sel E"
  "quit_times (scroll_col_right E) = quit_times E"
  "last_match (scroll_col_right E) = last_match E"
  "direction (scroll_col_right E) = direction E"
  "saved_hl_line (scroll_col_right E) = saved_hl_line E"
  "saved_hl (scroll_col_right E) = saved_hl E"
  by (simp_all add: scroll_col_right_def)

lemma editorScroll_keeps [simp]:
  "cx (editorScroll E) = cx E"
  "cy (editorScroll E) = cy E"
  "screen_rows (editorScroll E) = screen_rows E"
  "screen_cols (editorScroll E) = screen_cols E"
  "row (editorScroll E) = row E"
  "dirty (editorScroll E) = dirty E"
  "filename (editorScroll E) = filename E"
  "syntax_sel (editorScroll E) = syntax_sel E"
  "quit_times (editorScroll E) = quit_times E"
  "last_match (editorScroll E) = last_match E"
  "direction (editorScroll E) = direction E"
  "saved_hl_line (editorScroll E) = saved_hl_line E"
  "saved_hl (editorScroll E) = saved_hl E"
  by (simp_all add: editorScroll_def)

lemma move_key_keeps [simp]:
  "rx (move_key k E) = rx E"
  "row_offset (move_key k E) = row_offset E"
  "col_offset (move_key k E) = col_offset E"
  "screen_rows (move_key k E) = screen_rows E"
  "screen_cols (move_key k E) = screen_cols E"
  "row (move_key k E) = row E"
  "dirty (move_key k E) = dirty E"
  "filename (move_key k E) = filename E"
  "syntax_sel (move_key k E) = syntax_sel E"
  "quit_times (move_key k E) = quit_times E"
  "last_match (move_key k E) = last_match E"
  "direction (move_key k E) = direction E"
  "saved_hl_line (move_key k E) = saved_hl_line E"
  "saved_hl (move_key k E) = saved_hl E"
  by (simp_all add: move_key_def split: option.splits)

lemma clamp_cx_keeps [simp]:
  "cy (clamp_cx E) = cy E"
  "rx (clamp_cx E) = rx E"
  "row_offset (clamp_cx E) = row_offset E"
  "col_offset (clamp_cx E) = col_offset E"
  "screen_rows (clamp_cx E) = screen_rows E"
  "screen_cols (clamp_cx E) = screen_cols E"
  "row (clamp_cx E) = row E"
  "dirty (clamp_cx E) = dirty E"
  "filename (clamp_cx E) = filename E"
  "syntax_sel (clamp_cx E) = syntax_sel E"
  "quit_times (clamp_cx E) = quit_times E"
  "last_match (clamp_cx E) = last_match E"
  "direction (clamp_cx E) = direction E"
  "saved_hl_line (clamp_cx E) = saved_hl_line E"
  "saved_hl (clamp_cx E) = saved_hl E"
  by (simp_all add: clamp_cx_def Let_def)

lemma editorMoveCursor_keeps [simp]:
  "rx (editorMoveCursor k E) = rx E"
  "row_offset (editorMoveCursor k E) = row_offset E"
  "col_offset (editorMoveCursor k E) = col_offset E"
  "screen_rows (editorMoveCursor k E) = screen_rows E"
  "screen_cols (editorMoveCursor k E) = screen_cols E"
  "row (editorMoveCursor k E) = row E"
  "dirty (editorMoveCursor k E) = dirty E"
  "filename (editorMoveCursor k E) = filename E"
  "syntax_sel (editorMoveCursor k E) = syntax_sel E"
  "quit_times (editorMoveCursor k E) = quit_times E"
  "last_match (editorMoveCursor k E) = last_match E"
  "direction (editorMoveCursor k E) = direction E"
  "saved_hl_line (editorMoveCursor k E) = saved_hl_line E"
  "saved_hl (editorMoveCursor k E) = saved_hl E"
  by (simp_all add: editorMoveCursor_def)

lemma editorInsertChar_keeps [simp]:
  "cy (editorInsertChar c E) = cy E"
  "rx (editorInsertChar c E) = rx E"
  "row_offset (editorInsertChar c E) = row_offset E"
  "col_offset (editorInsertChar c E) = col_offset E"
  "screen_rows (editorInsertChar c E) = screen_rows E"
  "screen_cols (editorInsertChar c E) = screen_cols E"
  "filename (editorInsertChar c E) = filename E"
  "syntax_sel (editorInsertChar c E) = syntax_sel E"
  "quit_times (editorInsertChar c E) = quit_times E"
  "last_match (editorInsertChar c E) = last_match E"
  "direction (editorInsertChar c E) = direction E"
  "saved_hl_line (editorInsertChar c E) = saved_hl_line E"
  "saved_hl (editorInsertChar c E) = saved_hl E"
  by (simp_all add: editorInsertChar_def Let_def)

lemma editorInsertNewline_keeps [simp]:
  "rx (editorInsertNewline E) = rx E"
  "row_offset (editorInsertNewline E) = row_offset E"
  "col_offset (editorInsertNewline E) = col_offset E"
  "screen_rows (editorInsertNewline E) = screen_rows E"
  "screen_cols (editorInsertNewline E) = screen_cols E"
  "filename (editorInsertNewline E) = filename E"
  "syntax_sel (editorInsertNewline E) = syntax_sel E"
  "quit_times (editorInsertNewline E) = quit_times E"
  "last_match (editorInsertNewline E) = last_match E"
  "direction (editorInsertNewline E) = direction E"
  "saved_hl_line (editorInsertNewline E) = saved_hl_line E"
  "saved_hl (editorInsertNewline E) = saved_hl E"
  by (simp_all add: editorInsertNewline_def Let_def)

lemma editorDelChar_keeps [simp]:
  "rx (editorDelChar E) = rx E"
  "row_offset (editorDelChar E) = row_offset E"
  "col_offset (editorDelChar E) = col_offset E"
  "screen_rows (editorDelChar E) = screen_rows E"
  "screen_cols (editorDelChar E) = screen_cols E"
  "filename (editorDelChar E) = filename E"
  "syntax_sel (editorDelChar E) = syntax_sel E"
  "quit_times (editorDelChar E) = quit_times E"
  "last_match (editorDelChar E) = last_match E"
  "direction (editorDelChar E) = direction E"
  "saved_hl_line (editorDelChar E) = saved_hl_line E"
  "saved_hl (editorDelChar E) = saved_hl E"
  by (simp_all add: editorDelChar_def Let_def)

lemma find_restore_keeps [simp]:
  "cx (find_restore E) = cx E"
  "cy (find_restore E) = cy E"
  "rx (find_restore E) = rx E"
  "row_offset (find_restore E) = row_offset E"
  "col_offset (find_restore E) = col_offset E"
  "screen_rows (find_restore E) = screen_rows E"
  "screen_cols (find_restore E) = screen_cols E"
  "dirty (find_restore E) = dirty E"
  "filename (find_restore E) = filename E"
  "syntax_sel (find_restore E) = syntax_sel E"
  "quit_times (find_restore E) = quit_times E"
  "last_match (find_restore E) = last_match E"
  "direction (find_restore E) = direction E"
  "saved_hl_line (find_restore E) = saved_hl_line E"
  by (simp_all add: find_restore_def Let_def split: option.splits)

lemma find_direction_keeps [simp]:
  "cx (find_direction k E) = cx E"
  "cy (find_direction k E) = cy E"
  "rx (find_direction k E) = rx E"
  "row_offset (find_direction k E) = row_offset E"
  "col_offset (find_direction k E) = col_offset E"
  "screen_rows (find_direction k E) = screen_rows E"
  "screen_cols (find_direction k E) = screen_cols E"
  "row (find_direction k E) = row E"
  "dirty (find_direction k E) = dirty E"
  "filename (find_direction k E) = filename E"
  "syntax_sel (find_direction k E) = syntax_sel E"
  "quit_times (find_direction k E) = quit_times E"
  "saved_hl_line (find_direction k E) = saved_hl_line E"
  "saved_hl (find_direction k E) = saved_hl E"
  by (simp_all add: find_direction_def Let_def)

lemma find_search_keeps [simp]:
  "rx (find_search q E) = rx E"
  "col_offset (find_search q E) = col_offset E"
  "screen_rows (find_search q E) = screen_rows E"
  "screen_cols (find_search q E) = screen_cols E"
  "dirty (find_search q E) = dirty E"
  "filename (find_search q E) = filename E"
  "syntax_sel (find_search q E) = syntax_sel E"
  "quit_times (find_search q E) = quit_times E"
  "direction (find_search q E) = direction E"
  by (simp_all add: find_search_def Let_def split: option.splits prod.splits)

lemma editorFindCallback_keeps [simp]:
  "rx (editorFindCallback q k E) = rx E"
  "col_offset (editorFindCallback q k E) = col_offset E"
  "screen_rows (editorFindCallback q k E) = screen_rows E"
  "screen_cols (editorFindCallback q k E) = screen_cols E"
  "dirty (editorFindCallback q k E) = dirty E"
  "filename (editorFindCallback q k E) = filename E"
  "syntax_sel (editorFindCallback q k E) = syntax_sel E"
  "quit_times (editorFindCallback q k E) = quit_times E"
  by (simp_all add: editorFindCallback_def Let_def)

lemma editorSelectSyntaxHighlight_keeps [simp]:
  "cx (editorSelectSyntaxHighlight E) = cx E"
  "cy (editorSelectSyntaxHighlight E) = cy E"
  "rx (editorSelectSyntaxHighlight E) = rx E"
  "row_offset (editorSelectSyntaxHighlight E) = row_offset E"
  "col_offset (editorSelectSyntaxHighlight E) = col_offset E"
  "screen_rows (editorSelectSyntaxHighlight E) = screen_rows E"
  "screen_cols (editorSelectSyntaxHighlight E) = screen_cols E"
  "dirty (editorSelectSyntaxHighlight E) = dirty E"
  "filename (editorSelectSyntaxHighlight E) = filename E"
  "quit_times (editorSelectSyntaxHighlight E) = quit_times E"
  "last_match (editorSelectSyntaxHighlight E) = last_match E"
  "direction (editorSelectSyntaxHighlight E) = direction E"
  "saved_hl_line (editorSelectSyntaxHighlight E) = saved_hl_line E"
  "saved_hl (editorSelectSyntaxHighlight E) = saved_hl E"
  by (simp_all add: editorSelectSyntaxHighlight_def Let_def split: option.splits)

lemma write_out_keeps [simp]:
  "cx (write_out ok E) = cx E"
  "cy (write_out ok E) = cy E"
  "rx (write_out ok E) = rx E"
  "row_offset (write_out ok E) = row_offset E"
  "col_offset (write_out ok E) = col_offset E"
  "screen_rows (write_out ok E) = screen_rows E"
  "screen_cols (write_out ok E) = screen_cols E"
  "row (write_out ok E) = row E"
  "filename (write_out ok E) = filename E"
  "syntax_sel (write_out ok E) = syntax_sel E"
  "quit_times (write_out ok E) = quit_times E"
  "last_match (write_out ok E) = last_match E"
  "direction (write_out ok E) = direction E"
  "saved_hl_line (write_out ok E) = saved_hl_line E"
  "saved_hl (write_out ok E) = saved_hl E"
  by (simp_all add: write_out_def)

lemma num_rows_scroll [simp]: "num_rows (editorScroll E) = num_rows E"
  by (simp add: num_rows_def)

lemma num_rows_editorMoveCursor [simp]: "num_rows (editorMoveCursor k E) = num_rows E"
  by (simp add: num_rows_def)

lemma num_rows_cx_update [simp]: "num_rows (E\<lparr>cx := a\<rparr>) = num_rows E"
  by (simp add: num_rows_def)

lemma num_rows_cy_update [simp]: "num_rows (E\<lparr>cy := a\<rparr>) = num_rows E"
  by (simp add: num_rows_def)

lemma render_editorUpdateSyntax [simp]: "render (editorUpdateSyntax syn r) = render r"
  by (simp add: editorUpdateSyntax_def Let_def split: option.splits)

lemma chars_editorUpdateSyntax [simp]: "chars (editorUpdateSyntax syn r) = chars r"
  by (simp add: editorUpdateSyntax_def Let_def split: option.splits)

lemma editorUpdateRow_chars [simp]: "chars (editorUpdateRow syn r) = chars r"
  by (simp add: editorUpdateRow_def editorUpdateSyntax_def Let_def split: option.splits)

section \<open>The example documents, evaluated\<close>

lemma two_rows_eq:
  "two_rows =
    \<lparr>cx = 0, cy = 0, rx = 0, row_offset = 0, col_offset = 0, screen_rows = 22, screen_cols = 80,
     row = [\<lparr>chars = ''a'', render = ''a'', hl = [HL_NORMAL]\<rparr>,
            \<lparr>chars = ''bb'', render = ''bb'', hl = [HL_NORMAL, HL_NORMAL]\<rparr>],
     dirty = 2, filename = None, syntax_sel = None, quit_times = 3, last_match = - 1,
     direction = 1, saved_hl_line = 0, saved_hl = None\<rparr>"
  by (simp add: two_rows_def editorInsertRow_def initEditor_def num_rows_def editorUpdateRow_def
        editorUpdateSyntax_def render_step_def TAB_def EDI_QUIT_TIMES_def)

section \<open>Coordinate conversion\<close>

lemma advance_rx_gt: "r < advance_rx r c"
proof -
  have "r mod 8 \<le> 7" by presburger
  then show ?thesis by (simp add: advance_rx_def EDI_TAB_STOP_def)
qed

lemma foldl_advance_ge: "r + int (length cs) \<le> foldl advance_rx r cs"
proof (induction cs arbitrary: r)
  case Nil
  then show ?case by simp
next
  case (Cons c cs)
  have "advance_rx r c + int (length cs) \<le> foldl advance_rx (advance_rx r c) cs"
    by (rule Cons.IH)
  moreover have "r < advance_rx r c" by (rule advance_rx_gt)
  ultimately show ?case by simp
qed

lemma rx_loop_take:
  "j \<le> length cs \<Longrightarrow> rx_loop cs (foldl advance_rx r (take j cs)) r n = n + int j"
proof (induction cs arbitrary: r n j)
  case Nil
  then show ?case by simp
next
  case (Cons c cs)
  show ?case
  proof (cases j)
    case 0
    then show ?thesis using advance_rx_gt [of r c] by (simp add: Let_def)
  next
    case (Suc j')
    with Cons.prems have le: "j' \<le> length cs" by simp
    have "advance_rx r c \<le> foldl advance_rx (advance_rx r c) (take j' cs)"
      using foldl_advance_ge [of "advance_rx r c" "take j' cs"] by simp
    then show ?thesis using Suc Cons.IH [OF le, where r = "advance_rx r c" and n = "n + 1"]
      by (simp add: Let_def)
  qed
qed

lemma rx_loop_bounds: "n \<le> rx_loop cs t r n \<and> rx_loop cs t r n \<le> n + int (length cs)"
proof (induction cs arbitrary: r n)
  case Nil
  then show ?case by simp
next
  case (Cons c cs)
  from Cons.IH [where r = "advance_rx r c" and n = "n + 1"] show ?case by (simp add: Let_def)
qed

lemma rx_loop_past: "foldl advance_rx r cs \<le> t \<Longrightarrow> rx_loop cs t r n = n + int (length cs)"
proof (induction cs arbitrary: r n)
  case Nil
  then show ?case by simp
next
  case (Cons c cs)
  have "advance_rx r c \<le> foldl advance_rx (advance_rx r c) cs"
    using foldl_advance_ge [of "advance_rx r c" cs] by simp
  with Cons.prems have "\<not> advance_rx r c > t" by simp
  then show ?case using Cons.IH [where r = "advance_rx r c" and n = "n + 1"] Cons.prems by (simp add: Let_def)
qed

lemma advance_rx_tab: "advance_rx r TAB = (r div 8 + 1) * 8"
  unfolding advance_rx_def EDI_TAB_STOP_def
  by (simp add: algebra_simps)

lemma div8_stop: "(L::int) mod 8 = 0 \<Longrightarrow> 8 * ((L + 7) div 8) = L"
proof -
  assume a: "L mod 8 = 0"
  then obtain q where "L = 8 * q" by (auto simp: mod_eq_0_iff_dvd)
  then show ?thesis by simp
qed
lemma div8_step: "(L::int) mod 8 \<noteq> 0 \<Longrightarrow> (L + 7) div 8 = L div 8 + 1"
proof -
  assume a: "L mod 8 \<noteq> 0"
  have m: "0 \<le> L mod 8" "L mod 8 < 8" by simp_all
  have e: "L + 7 = (L mod 8 - 1) + (L div 8 + 1) * 8" by (simp add: algebra_simps)
  have z: "(L mod 8 - 1) div 8 = 0"
    by (rule div_pos_pos_trivial) (use a m in linarith)+
  have "(L + 7) div 8 = ((L mod 8 - 1) + (L div 8 + 1) * 8) div 8" by (simp only: e)
  also have "\<dots> = (L div 8 + 1) + (L mod 8 - 1) div 8" by (rule div_mult_self1) simp
  finally show ?thesis by (simp only: z add_0_right)
qed

lemma div8_add: "(8 + L) div 8 = (L::int) div 8 + 1"
  by (rule div_add_self1) simp

lemma length_tab_fill: "int (length (tab_fill out)) = 8 * ((int (length out) + 7) div 8)"
proof (induction out rule: tab_fill.induct)
  case (1 out)
  show ?case
  proof (cases "int (length out) mod EDI_TAB_STOP \<noteq> 0")
    case True
    then have "int (length out) mod 8 \<noteq> 0" by (simp add: EDI_TAB_STOP_def)
    then have "(int (length out) + 7) div 8 = int (length out) div 8 + 1" by (rule div8_step)
    moreover have "tab_fill out = tab_fill (out @ [CHR '' ''])"
      using True by (subst tab_fill.simps) simp
    ultimately show ?thesis using 1 [OF True] by (simp add: div8_add)
  next
    case False
    then have "int (length out) mod 8 = 0" by (simp add: EDI_TAB_STOP_def)
    then have "8 * ((int (length out) + 7) div 8) = int (length out)" by (rule div8_stop)
    moreover have "tab_fill out = out"
      using False by (subst tab_fill.simps) simp
    ultimately show ?thesis by simp
  qed
qed

lemma length_render_step: "int (length (render_step out c)) = advance_rx (int (length out)) c"
proof (cases "c = TAB")
  case True
  have "8 * (int (length out) div 8) = int (length out) - int (length out) mod 8"
    by (simp add: minus_mod_eq_mult_div)
  then show ?thesis using True
    by (simp add: render_step_def length_tab_fill advance_rx_def EDI_TAB_STOP_def div8_add)
next
  case False
  then show ?thesis by (simp add: render_step_def advance_rx_def)
qed

lemma length_foldl_render:
  "int (length (foldl render_step out cs)) = foldl advance_rx (int (length out)) cs"
proof (induction cs arbitrary: out)
  case Nil
  then show ?case by simp
next
  case (Cons c cs)
  show ?case using Cons.IH [of "render_step out c"] by (simp add: length_render_step)
qed

lemma rsize_editorUpdateRow: "rsize (editorUpdateRow syn r) = editorRowCxToRx r (row_size r)"
  using length_foldl_render [of "[]" "chars r"]
  by (simp add: rsize_def editorUpdateRow_def editorRowCxToRx_def row_size_def)

lemma editorRowCxToRx_Suc:
  assumes "0 \<le> k" "k < row_size r"
  shows "editorRowCxToRx r (k + 1) = advance_rx (editorRowCxToRx r k) (chars r ! nat k)"
proof -
  from assms have lt: "nat k < length (chars r)" by (simp add: row_size_def)
  from assms have "nat (k + 1) = Suc (nat k)" by simp
  then show ?thesis
    by (simp add: editorRowCxToRx_def take_Suc_conv_app_nth [OF lt])
qed

lemma advance_rx_other: "c \<noteq> TAB \<Longrightarrow> advance_rx r c = r + 1"
  by (simp add: advance_rx_def)

text \<open>
  C1. For every row and every cursor column \<open>k\<close> with \<open>0 \<le> k \<le> size\<close>, converting
  to render space and back gives \<open>k\<close> again; and one more byte moves the render
  column to the next multiple of 8 when it is a tab, by one otherwise.
\<close>

theorem cx_rx_roundtrip:
  assumes "0 \<le> k" "k \<le> row_size r"
  shows "editorRowRxToCx r (editorRowCxToRx r k) = k
       \<and> (k < row_size r \<longrightarrow>
            editorRowCxToRx r (k + 1) =
              (if chars r ! nat k = TAB then (editorRowCxToRx r k div 8 + 1) * 8
               else editorRowCxToRx r k + 1))"
proof
  from assms show "editorRowRxToCx r (editorRowCxToRx r k) = k"
    using rx_loop_take [of "nat k" "chars r" 0 0]
    by (simp add: editorRowRxToCx_def editorRowCxToRx_def row_size_def)
next
  show "k < row_size r \<longrightarrow>
          editorRowCxToRx r (k + 1) =
            (if chars r ! nat k = TAB then (editorRowCxToRx r k div 8 + 1) * 8
             else editorRowCxToRx r k + 1)"
  proof
    assume "k < row_size r"
    with assms have "editorRowCxToRx r (k + 1) = advance_rx (editorRowCxToRx r k) (chars r ! nat k)"
      by (simp add: editorRowCxToRx_Suc)
    then show "editorRowCxToRx r (k + 1) =
            (if chars r ! nat k = TAB then (editorRowCxToRx r k div 8 + 1) * 8
             else editorRowCxToRx r k + 1)"
      by (simp add: advance_rx_tab advance_rx_other)
  qed
qed

theorem cx_rx_roundtrip_witness:
  "(0::int) \<le> 1 \<and> 1 \<le> row_size \<lparr>chars = [CHR ''a'', TAB, CHR ''b''], render = [], hl = []\<rparr>
   \<and> editorRowCxToRx \<lparr>chars = [CHR ''a'', TAB, CHR ''b''], render = [], hl = []\<rparr> 1 = 1
   \<and> editorRowCxToRx \<lparr>chars = [CHR ''a'', TAB, CHR ''b''], render = [], hl = []\<rparr> 2 = 8
   \<and> editorRowRxToCx \<lparr>chars = [CHR ''a'', TAB, CHR ''b''], render = [], hl = []\<rparr> 1 = 1"
  using cx_rx_roundtrip [of 1 "\<lparr>chars = [CHR ''a'', TAB, CHR ''b''], render = [], hl = []\<rparr>"]
  by (simp add: row_size_def editorRowCxToRx_def advance_rx_def EDI_TAB_STOP_def TAB_def)

text \<open>
  C9. \<open>editorRowRxToCx\<close> returns for every row and every target (negative ones and
  those past the end of the rendered row too) an index between 0 and \<open>size\<close>; for a
  target of at least the rendered width, which is the \<open>rsize\<close> that \<open>editorUpdateRow\<close>
  computes, it returns \<open>size\<close>.
\<close>

theorem rx_to_cx_in_range:
  "0 \<le> editorRowRxToCx r t \<and> editorRowRxToCx r t \<le> row_size r
   \<and> (editorRowCxToRx r (row_size r) \<le> t \<longrightarrow> editorRowRxToCx r t = row_size r)
   \<and> rsize (editorUpdateRow syn r) = editorRowCxToRx r (row_size r)"
proof -
  have "0 \<le> editorRowRxToCx r t \<and> editorRowRxToCx r t \<le> row_size r"
    using rx_loop_bounds [of 0 "chars r" t 0]
    by (simp add: editorRowRxToCx_def row_size_def)
  moreover have "editorRowCxToRx r (row_size r) \<le> t \<longrightarrow> editorRowRxToCx r t = row_size r"
    using rx_loop_past [of 0 "chars r" t 0]
    by (simp add: editorRowRxToCx_def editorRowCxToRx_def row_size_def)
  ultimately show ?thesis by (simp add: rsize_editorUpdateRow)
qed

theorem rx_to_cx_in_range_witness:
  "editorRowCxToRx \<lparr>chars = [CHR ''a'', TAB, CHR ''b''], render = [], hl = []\<rparr>
      (row_size \<lparr>chars = [CHR ''a'', TAB, CHR ''b''], render = [], hl = []\<rparr>) \<le> 9
   \<and> editorRowRxToCx \<lparr>chars = [CHR ''a'', TAB, CHR ''b''], render = [], hl = []\<rparr> 9 = 3
   \<and> editorRowRxToCx \<lparr>chars = [CHR ''a'', TAB, CHR ''b''], render = [], hl = []\<rparr> 200 = 3
   \<and> editorRowRxToCx \<lparr>chars = [CHR ''a'', TAB, CHR ''b''], render = [], hl = []\<rparr> (- 5) = 0"
  using rx_to_cx_in_range [of "\<lparr>chars = [CHR ''a'', TAB, CHR ''b''], render = [], hl = []\<rparr>" 9 None]
  by (simp add: row_size_def editorRowCxToRx_def editorRowRxToCx_def advance_rx_def
        EDI_TAB_STOP_def TAB_def Let_def)
section \<open>Serialising the document\<close>

lemma foldl_rows_buff:
  "foldl (\<lambda>b r. b @ chars r @ [NEWLINE]) acc rs = acc @ concat (map (\<lambda>r. chars r @ [NEWLINE]) rs)"
  by (induction rs arbitrary: acc) simp_all

lemma foldl_rows_len:
  "foldl (\<lambda>n r. n + (row_size r + 1)) acc rs = acc + sum_list (map (\<lambda>r. row_size r + 1) rs)"
  by (induction rs arbitrary: acc) simp_all

lemma length_concat_rows:
  "int (length (concat (map (\<lambda>r. chars r @ [NEWLINE]) rs))) = sum_list (map (\<lambda>r. row_size r + 1) rs)"
  by (induction rs) (simp_all add: row_size_def)

text \<open>
  C8. \<open>editorRowsToString\<close> returns the rows' bytes, each row followed by a newline,
  and as length the sum over the rows of \<open>size + 1\<close>, which is the length of that
  buffer; rows \<open>a\<close> and \<open>bb\<close> give five bytes: \<open>a\<close>, newline, \<open>bb\<close>, newline.
\<close>

theorem rows_to_string:
  "fst (editorRowsToString E) = concat (map (\<lambda>r. chars r @ [NEWLINE]) (row E))
   \<and> snd (editorRowsToString E) = sum_list (map (\<lambda>r. row_size r + 1) (row E))
   \<and> int (length (fst (editorRowsToString E))) = snd (editorRowsToString E)
   \<and> (map chars (row E) = [''a'', ''bb''] \<longrightarrow>
        editorRowsToString E = ([CHR ''a'', NEWLINE, CHR ''b'', CHR ''b'', NEWLINE], 5))"
proof -
  have b: "fst (editorRowsToString E) = concat (map (\<lambda>r. chars r @ [NEWLINE]) (row E))"
    by (simp add: editorRowsToString_def Let_def foldl_rows_buff)
  have n: "snd (editorRowsToString E) = sum_list (map (\<lambda>r. row_size r + 1) (row E))"
    by (simp add: editorRowsToString_def Let_def foldl_rows_len)
  have e: "map chars (row E) = [''a'', ''bb''] \<longrightarrow>
        editorRowsToString E = ([CHR ''a'', NEWLINE, CHR ''b'', CHR ''b'', NEWLINE], 5)"
  proof
    assume a: "map chars (row E) = [''a'', ''bb'']"
    then obtain r1 r2 where rs: "row E = [r1, r2]" and c: "chars r1 = ''a''" "chars r2 = ''bb''"
      by (auto simp: map_eq_Cons_conv)
    show "editorRowsToString E = ([CHR ''a'', NEWLINE, CHR ''b'', CHR ''b'', NEWLINE], 5)"
      by (simp add: editorRowsToString_def Let_def rs c row_size_def)
  qed
  from b n e show ?thesis by (simp add: length_concat_rows)
qed

lemma two_rows_chars: "map chars (row two_rows) = [''a'', ''bb'']"
  by (simp add: two_rows_eq)

theorem rows_to_string_witness:
  "map chars (row two_rows) = [''a'', ''bb'']
   \<and> editorRowsToString two_rows = ([CHR ''a'', NEWLINE, CHR ''b'', CHR ''b'', NEWLINE], 5)"
  using rows_to_string [of two_rows] two_rows_chars by simp

section \<open>The key decoder\<close>

lemma read1_map_Got: "read1 (map Got bs) = (case bs of [] \<Rightarrow> (None, []) | b # r \<Rightarrow> (Some b, map Got r))"
  by (cases bs) simp_all

lemma read_escape_exists: "\<exists>k rest. read_escape evs = Key k rest"
  by (simp add: read_escape_def split: prod.splits option.splits)

lemma editorReadKey_total:
  "(\<exists>c. Got c \<in> set evs) \<Longrightarrow> Failed \<notin> set evs \<Longrightarrow> \<exists>k rest. editorReadKey evs = Key k rest"
proof (induction evs rule: editorReadKey.induct)
  case 1
  then show ?case by simp
next
  case (2 evs)
  then show ?case by simp
next
  case (3 evs)
  then show ?case by simp
next
  case (4 c evs)
  show ?case using read_escape_exists [of evs] by simp
qed

lemma read_escape_table:
  "\<exists>rest. read_escape (map Got bs) = Key (spec_table_key bs) rest"
proof (cases bs)
  case Nil
  then show ?thesis by (simp add: read_escape_def spec_table_key_def spec_decoding_table_def)
next
  case (Cons s0 r0)
  note c0 = this
  show ?thesis
  proof (cases r0)
    case Nil
    then show ?thesis using c0 by (simp add: read_escape_def spec_table_key_def spec_decoding_table_def)
  next
    case (Cons s1 r1)
    note c1 = this
    show ?thesis
    proof (cases r1)
      case Nil
      then show ?thesis using c0 c1
        by (auto simp add: read_escape_def spec_table_key_def spec_decoding_table_def bracket_key_def
            o_key_def isdigit_def)
    next
      case (Cons s2 r2)
      then show ?thesis using c0 c1
        by (auto simp add: read_escape_def spec_table_key_def spec_decoding_table_def bracket_key_def
            o_key_def digit_key_def isdigit_def)
    qed
  qed
qed

lemma editorReadKey_bytes: "bs \<noteq> [] \<Longrightarrow> \<exists>k rest. editorReadKey (map Got bs) = Key k rest"
  by (rule editorReadKey_total) (cases bs, auto)

text \<open>
  C3. An input in which a byte arrives and no read fails gives exactly one key, and so
  does every non-empty sequence of bytes: the decoder neither dies nor waits for ever.
  A byte other than escape is returned as it is. After the escape byte the key is the
  one the specification's table gives for the bytes that follow, and the literal escape
  when they start with no entry of it: \<open>ESC [ 5 ~\<close> is \<open>PAGE_UP\<close>, \<open>ESC [ Z\<close> is
  escape. A read that times out inside a sequence gives escape.
\<close>

theorem key_decoder_total:
  "((\<exists>c. Got c \<in> set evs) \<and> Failed \<notin> set evs \<longrightarrow> (\<exists>!k. \<exists>rest. editorReadKey evs = Key k rest))
   \<and> (bs \<noteq> [] \<longrightarrow> (\<exists>k rest. editorReadKey (map Got bs) = Key k rest))
   \<and> (c \<noteq> ESC \<longrightarrow> editorReadKey (Got c # evs) = Key (char_int c) evs)
   \<and> (\<exists>rest. editorReadKey (map Got (ESC # bs)) = Key (spec_table_key bs) rest)
   \<and> editorReadKey (map Got [ESC, CHR ''['', CHR ''5'', CHR ''~'']) = Key PAGE_UP []
   \<and> editorReadKey (map Got [ESC, CHR ''['', CHR ''Z'']) = Key (char_int ESC) []
   \<and> editorReadKey (Got ESC # Timeout # evs) = Key (char_int ESC) evs
   \<and> editorReadKey (Got ESC # Got s0 # Timeout # evs) = Key (char_int ESC) evs
   \<and> (isdigit d \<longrightarrow>
        editorReadKey (Got ESC # Got (CHR ''['') # Got d # Timeout # evs) = Key (char_int ESC) evs)"
proof -
  have t: "(\<exists>c. Got c \<in> set evs) \<and> Failed \<notin> set evs \<longrightarrow> (\<exists>!k. \<exists>rest. editorReadKey evs = Key k rest)"
    using editorReadKey_total [of evs] by auto
  have b: "bs \<noteq> [] \<longrightarrow> (\<exists>k rest. editorReadKey (map Got bs) = Key k rest)"
    using editorReadKey_bytes by blast
  have e: "\<exists>rest. editorReadKey (map Got (ESC # bs)) = Key (spec_table_key bs) rest"
    using read_escape_table [of bs] by simp
  have p: "editorReadKey (map Got [ESC, CHR ''['', CHR ''5'', CHR ''~'']) = Key PAGE_UP []"
    by (simp add: read_escape_def digit_key_def isdigit_def)
  have z: "editorReadKey (map Got [ESC, CHR ''['', CHR ''Z'']) = Key (char_int ESC) []"
    by (simp add: read_escape_def bracket_key_def isdigit_def)
  have o: "editorReadKey (Got ESC # Timeout # evs) = Key (char_int ESC) evs"
    "editorReadKey (Got ESC # Got s0 # Timeout # evs) = Key (char_int ESC) evs"
    "isdigit d \<longrightarrow>
        editorReadKey (Got ESC # Got (CHR ''['') # Got d # Timeout # evs) = Key (char_int ESC) evs"
    by (simp_all add: read_escape_def)
  from t b e p z o show ?thesis by simp
qed

theorem key_decoder_total_witness:
  "Got (CHR ''x'') \<in> set [Timeout, Got (CHR ''x''), Got ESC] \<and> Failed \<notin> set [Timeout, Got (CHR ''x''), Got ESC]
   \<and> ''[6~q'' \<noteq> [] \<and> CHR ''x'' \<noteq> ESC \<and> isdigit (CHR ''5'')
   \<and> editorReadKey [Timeout, Got (CHR ''x''), Got ESC] = Key 120 [Got ESC]
   \<and> editorReadKey (map Got (ESC # ''[6~q'')) = Key PAGE_DOWN [Got (CHR ''q'')]
   \<and> editorReadKey [Got ESC, Got (CHR ''[''), Got (CHR ''5''), Timeout, Got (CHR ''~'')]
        = Key 27 [Got (CHR ''~'')]"
  using key_decoder_total [where evs = "[Timeout, Got (CHR ''x''), Got ESC]" and bs = "''[6~q''"
      and c = "CHR ''x''" and d = "CHR ''5''" and ?s0.0 = "CHR ''[''"]
  by (auto simp: read_escape_def digit_key_def isdigit_def char_int_def ESC_def)

section \<open>Scrolling\<close>

lemma row_offset_editorScroll:
  "row_offset (editorScroll E) =
    (if cy E \<ge> min (row_offset E) (cy E) + screen_rows E then cy E - screen_rows E + 1
     else min (row_offset E) (cy E))"
  by (simp add: editorScroll_def scroll_row_down_def scroll_row_up_def min_def)





section \<open>Horizontal movement across line ends\<close>

text \<open>
  C10. \<open>ARROW_LEFT\<close> at column 0 of a row below the first goes to the end of the row
  above; \<open>ARROW_RIGHT\<close> at the end of a row goes to column 0 of the next line;
  \<open>ARROW_LEFT\<close> at (0, 0) and \<open>ARROW_RIGHT\<close> on the line after the last row (where
  the column is 0) change nothing.
\<close>

theorem move_cursor_wrap:
  "(cx E = 0 \<and> 0 < cy E \<and> cy E \<le> num_rows E \<longrightarrow>
      editorMoveCursor ARROW_LEFT E = E\<lparr>cy := cy E - 1, cx := row_size (row E ! nat (cy E - 1))\<rparr>)
   \<and> (0 \<le> cy E \<and> cy E < num_rows E \<and> cx E = row_size (row E ! nat (cy E)) \<longrightarrow>
      editorMoveCursor ARROW_RIGHT E = E\<lparr>cy := cy E + 1, cx := 0\<rparr>)
   \<and> (cx E = 0 \<and> cy E = 0 \<longrightarrow> editorMoveCursor ARROW_LEFT E = E)
   \<and> (cy E = num_rows E \<and> cx E = 0 \<longrightarrow> editorMoveCursor ARROW_RIGHT E = E)"
  by (simp add: editorMoveCursor_def move_key_def clamp_cx_def current_row_def key_defs
        row_size_def Let_def num_rows_def)

theorem move_cursor_wrap_witness:
  "cx (two_rows\<lparr>cy := 1\<rparr>) = 0 \<and> 0 < cy (two_rows\<lparr>cy := 1\<rparr>)
   \<and> cy (two_rows\<lparr>cy := 1\<rparr>) \<le> num_rows (two_rows\<lparr>cy := 1\<rparr>)
   \<and> cy (editorMoveCursor ARROW_LEFT (two_rows\<lparr>cy := 1\<rparr>)) = 0
   \<and> cx (editorMoveCursor ARROW_LEFT (two_rows\<lparr>cy := 1\<rparr>)) = 1
   \<and> cy (editorMoveCursor ARROW_RIGHT (two_rows\<lparr>cx := 1\<rparr>)) = 1
   \<and> cx (editorMoveCursor ARROW_RIGHT (two_rows\<lparr>cx := 1\<rparr>)) = 0
   \<and> editorMoveCursor ARROW_LEFT two_rows = two_rows
   \<and> editorMoveCursor ARROW_RIGHT (two_rows\<lparr>cy := 2\<rparr>) = two_rows\<lparr>cy := 2\<rparr>"
  using move_cursor_wrap [of "two_rows\<lparr>cy := 1\<rparr>"] move_cursor_wrap [of "two_rows\<lparr>cx := 1\<rparr>"]
    move_cursor_wrap [of two_rows] move_cursor_wrap [of "two_rows\<lparr>cy := 2\<rparr>"]
  by (simp add: two_rows_eq num_rows_def row_size_def)

section \<open>Splitting and joining rows\<close>

lemma editorUpdateRow_cong: "chars (x::erow) = chars y \<Longrightarrow> editorUpdateRow syn x = editorUpdateRow syn y"
  by (cases x, cases y) (simp add: editorUpdateRow_def editorUpdateSyntax_def Let_def split: option.splits)

lemma row_editorInsertRow:
  "\<lbrakk>0 \<le> at; at \<le> num_rows E\<rbrakk> \<Longrightarrow>
   row (editorInsertRow at s E) =
     take (nat at) (row E) @ [editorUpdateRow (syntax_sel E) \<lparr>chars = s, render = [], hl = []\<rparr>]
       @ drop (nat at) (row E)"
  by (simp add: editorInsertRow_def)

lemma row_editorRowAppendString:
  "row (editorRowAppendString i s E) =
     (row E)[nat i := editorUpdateRow (syntax_sel E) ((row E ! nat i)\<lparr>chars := chars (row E ! nat i) @ s\<rparr>)]"
  by (simp add: editorRowAppendString_def Let_def)

lemma row_editorDelRow:
  "\<lbrakk>0 \<le> at; at < num_rows E\<rbrakk> \<Longrightarrow>
   row (editorDelRow at E) = take (nat at) (row E) @ drop (nat at + 1) (row E)"
  by (simp add: editorDelRow_def)

lemma mid_nth:
  "length A = n \<Longrightarrow> (A @ x # y # B) ! n = x"
  "length A = n \<Longrightarrow> (A @ x # y # B) ! Suc n = y"
  by (auto simp: nth_append)

lemma take_upd_mid:
  "length A = n \<Longrightarrow> take (Suc n) ((A @ x # C)[n := z]) = A @ [z]"
  by (auto simp: list_update_append)

lemma drop_mid:
  "length A = n \<Longrightarrow> drop (Suc (Suc n)) (A @ x # y # B) = B"
  by auto

text \<open>The branch of \<open>editorDelChar\<close> that joins a row to the one above it.\<close>

lemma editorDelChar_join:
  assumes "cx E = 0" "0 < cy E" "cy E < num_rows E" "cy E = int (Suc n)"
  shows "row (editorDelChar E) =
           take (Suc n) ((row E)[n := editorUpdateRow (syntax_sel E)
                    ((row E ! n)\<lparr>chars := chars (row E ! n) @ chars (row E ! Suc n)\<rparr>)])
           @ drop (Suc (Suc n)) (row E)"
    and "cy (editorDelChar E) = int n"
    and "cx (editorDelChar E) = row_size (row E ! n)"
proof -
  have i: "nat (cy E) = Suc n" "nat (cy E - 1) = n" "nat (int n) = n" "cy E - 1 = int n"
    using assms by simp_all
  have nr: "num_rows (editorRowAppendString (int n) s (E\<lparr>cx := k\<rparr>)) = num_rows E" for s k
    by (simp add: num_rows_def row_editorRowAppendString)
  show "row (editorDelChar E) =
           take (Suc n) ((row E)[n := editorUpdateRow (syntax_sel E)
                    ((row E ! n)\<lparr>chars := chars (row E ! n) @ chars (row E ! Suc n)\<rparr>)])
           @ drop (Suc (Suc n)) (row E)"
    using assms(1-3)
    by (simp add: editorDelChar_def Let_def i row_editorDelRow nr row_editorRowAppendString)
  show "cy (editorDelChar E) = int n" "cx (editorDelChar E) = row_size (row E ! n)"
    using assms(1-3) by (simp_all add: editorDelChar_def Let_def i)
qed

text \<open>
  C6. With the cursor on a row, at a column between 0 and the row's length,
  \<open>editorInsertNewline\<close> puts the cursor at column 0 of the next line, and
  \<open>editorDelChar\<close> there gives back the row list (the joined row rendered anew, with
  the bytes it had) and the cursor.
\<close>

theorem newline_then_delete:
  assumes "0 \<le> cy E" "cy E < num_rows E" "0 \<le> cx E" "cx E \<le> row_size (row E ! nat (cy E))"
  shows "cy (editorInsertNewline E) = cy E + 1 \<and> cx (editorInsertNewline E) = 0
       \<and> row (editorDelChar (editorInsertNewline E)) =
             (row E)[nat (cy E) := editorUpdateRow (syntax_sel E) (row E ! nat (cy E))]
       \<and> map chars (row (editorDelChar (editorInsertNewline E))) = map chars (row E)
       \<and> cy (editorDelChar (editorInsertNewline E)) = cy E
       \<and> cx (editorDelChar (editorInsertNewline E)) = cx E"
proof -
  define n where "n = nat (cy E)"
  define U where "U = editorUpdateRow (syntax_sel E)"
  define A where "A = take n (row E)"
  define B where "B = drop (Suc n) (row E)"
  define r where "r = row E ! n"
  define E1 where "E1 = editorInsertNewline E"
  have n: "n < length (row E)" "cy E = int n" using assms by (simp_all add: n_def num_rows_def)
  have lenA: "length A = n" using n by (simp add: A_def)
  have d: "drop n (row E) = r # B"
    using n by (simp add: Cons_nth_drop_Suc r_def B_def)
  have upd: "(row E)[n := z] = A @ z # B" for z
    using n by (simp add: upd_conv_take_nth_drop A_def B_def)
  have cur: "cy E1 = int (Suc n)" "cx E1 = 0" "syntax_sel E1 = syntax_sel E"
    using n by (simp_all add: editorInsertNewline_def Let_def E1_def)
  have rows1: "\<exists>x y. row E1 = A @ x # y # B \<and> chars x @ chars y = chars r
                  \<and> row_size x = cx E"
  proof (cases "cx E = 0")
    case True
    have "row E1 = A @ U \<lparr>chars = [], render = [], hl = []\<rparr> # r # B"
      using True n by (simp add: E1_def editorInsertNewline_def row_editorInsertRow U_def
            num_rows_def A_def d)
    then show ?thesis using True by (simp add: row_size_def U_def)
  next
    case False
    have t: "take (Suc n) (row E) = A @ [r]"
      using n by (simp add: take_Suc_conv_app_nth A_def r_def)
    have k: "nat (cx E) \<le> length (chars r)"
      using assms by (simp add: row_size_def r_def n)
    have "row E1 = A @ U (r\<lparr>chars := take (nat (cx E)) (chars r)\<rparr>)
                     # U \<lparr>chars = drop (nat (cx E)) (chars r), render = [], hl = []\<rparr> # B"
      using False n lenA
      apply (simp add: E1_def editorInsertNewline_def Let_def row_editorInsertRow U_def
            num_rows_def nat_add_distrib t B_def[symmetric] r_def[symmetric] nth_append
            list_update_append)
      done
    then show ?thesis using k assms(3) by (auto simp: row_size_def U_def min_def)
  qed
  then obtain x y where xy: "row E1 = A @ x # y # B" "chars x @ chars y = chars r"
    "row_size x = cx E" by blast
  have len1: "cy E1 < num_rows E1" using cur xy(1) lenA by (simp add: num_rows_def)
  have pos1: "0 < cy E1" using cur by simp
  note J = editorDelChar_join [OF cur(2) pos1 len1 cur(1)]
  have "U (x\<lparr>chars := chars x @ chars y\<rparr>) = U r"
    unfolding U_def by (rule editorUpdateRow_cong) (simp add: xy)
  then have "row (editorDelChar E1) = A @ U r # B"
    using J(1) lenA by (simp add: xy(1) mid_nth take_upd_mid drop_mid cur U_def)
  moreover have "cy (editorDelChar E1) = cy E" using J(2) n by simp
  moreover have "cx (editorDelChar E1) = cx E" using J(3) lenA by (simp add: xy mid_nth)
  moreover have "map chars ((row E)[n := U r]) = map chars (row E)"
  proof (rule nth_equalityI)
    show "length (map chars ((row E)[n := U r])) = length (map chars (row E))" by simp
  next
    fix i assume "i < length (map chars ((row E)[n := U r]))"
    then have "i < length (row E)" by simp
    then show "map chars ((row E)[n := U r]) ! i = map chars (row E) ! i"
      by (cases "i = n") (simp_all add: U_def r_def)
  qed
  ultimately show ?thesis
    using cur n by (simp add: upd E1_def[symmetric] n_def[symmetric] U_def[symmetric] r_def[symmetric])
qed

theorem newline_then_delete_witness:
  "0 \<le> cy (two_rows\<lparr>cy := 1, cx := 1\<rparr>)
   \<and> cy (two_rows\<lparr>cy := 1, cx := 1\<rparr>) < num_rows (two_rows\<lparr>cy := 1, cx := 1\<rparr>)
   \<and> 0 \<le> cx (two_rows\<lparr>cy := 1, cx := 1\<rparr>)
   \<and> cx (two_rows\<lparr>cy := 1, cx := 1\<rparr>)
        \<le> row_size (row (two_rows\<lparr>cy := 1, cx := 1\<rparr>) ! nat (cy (two_rows\<lparr>cy := 1, cx := 1\<rparr>)))
   \<and> map chars (row (editorDelChar (editorInsertNewline (two_rows\<lparr>cy := 1, cx := 1\<rparr>))))
        = [''a'', ''bb'']
   \<and> cy (editorDelChar (editorInsertNewline (two_rows\<lparr>cy := 1, cx := 1\<rparr>))) = 1
   \<and> cx (editorDelChar (editorInsertNewline (two_rows\<lparr>cy := 1, cx := 1\<rparr>))) = 1"
  using newline_then_delete [of "two_rows\<lparr>cy := 1, cx := 1\<rparr>"] two_rows_chars
  by (simp add: two_rows_eq num_rows_def row_size_def)

section \<open>Incremental search\<close>

lemma wrap_mod:
  assumes "0 < n" "d = 1 \<or> d = -1" "-1 \<le> c" "c < n" "c = -1 \<longrightarrow> d = 1"
  shows "(if c + d = -1 then n - 1 else if c + d = n then 0 else c + d) = (c + d) mod (n::int)"
proof -
  consider "c + d = -1" | "c + d = n" | "0 \<le> c + d \<and> c + d < n"
    using assms by arith
  then show ?thesis
  proof cases
    case 1
    have "(-1) mod n = n - 1" using assms(1) by (simp add: zmod_minus1)
    then show ?thesis using 1 by simp
  next
    case 2
    then show ?thesis using assms(1) by simp
  next
    case 3
    then show ?thesis by simp
  qed
qed

lemma find_loop_order:
  assumes "0 < length rs" "d = 1 \<or> d = -1"
  shows "\<lbrakk>-1 \<le> c; c < int (length rs); c = -1 \<longrightarrow> d = 1\<rbrakk> \<Longrightarrow>
         find_loop rs q d c j =
           (case find (\<lambda>i. strstr (c_str (render (rs ! nat i))) q \<noteq> None)
                   (map (\<lambda>k. (c + d * (1 + int k)) mod int (length rs)) [0..<j]) of
              None \<Rightarrow> None
            | Some i \<Rightarrow> Some (i, the (strstr (c_str (render (rs ! nat i))) q)))"
proof (induction j arbitrary: c)
  case 0
  then show ?case by simp
next
  case (Suc j)
  define n where "n = int (length rs)"
  define c2 where "c2 = (c + d) mod n"
  define R where "R order =
           (case find (\<lambda>i. strstr (c_str (render (rs ! nat i))) q \<noteq> None) order of
              None \<Rightarrow> None
            | Some i \<Rightarrow> Some (i, the (strstr (c_str (render (rs ! nat i))) q)))" for order
  have npos: "0 < n" using assms(1) by (simp add: n_def)
  have w: "(if c + d = -1 then n - 1 else if c + d = n then 0 else c + d) = c2"
    unfolding c2_def using npos assms(2) Suc.prems unfolding n_def [symmetric] by (rule wrap_mod)
  have c2nn: "0 \<le> c2" unfolding c2_def using npos by (rule pos_mod_sign)
  have c2lt: "c2 < n" unfolding c2_def using npos by (rule pos_mod_bound)
  have c2: "-1 \<le> c2" "c2 < n" "c2 \<noteq> -1"
    using c2nn c2lt by linarith+
  have IH: "find_loop rs q d c2 j = R (map (\<lambda>k. (c2 + d * (1 + int k)) mod n) [0..<j])"
    unfolding n_def R_def using c2 by (intro Suc.IH) (simp_all add: n_def)
  have step: "(c2 + d * (1 + int k)) mod n = (c + d * (1 + int (Suc k))) mod n" for k
  proof -
    have "(c2 + d * (1 + int k)) mod n = ((c + d) + d * (1 + int k)) mod n"
      unfolding c2_def by (rule mod_add_left_eq)
    also have "(c + d) + d * (1 + int k) = c + d * (1 + int (Suc k))"
      by (simp add: algebra_simps)
    finally show ?thesis .
  qed
  have one: "(c + d * (1 + int 0)) mod n = c2" by (simp add: c2_def)
  have order: "map (\<lambda>k. (c + d * (1 + int k)) mod n) [0..<Suc j]
             = c2 # map (\<lambda>k. (c2 + d * (1 + int k)) mod n) [0..<j]"
    unfolding map_upt_Suc one step ..
  have fl: "find_loop rs q d c (Suc j) =
      (case strstr (c_str (render (rs ! nat c2))) q of
         Some off \<Rightarrow> Some (c2, off)
       | None \<Rightarrow> find_loop rs q d c2 j)"
    by (simp only: find_loop.simps Let_def w [unfolded n_def])
  have "find_loop rs q d c (Suc j) = R (map (\<lambda>k. (c + d * (1 + int k)) mod n) [0..<Suc j])"
  proof (cases "strstr (c_str (render (rs ! nat c2))) q")
    case None
    then show ?thesis
      unfolding order fl using IH by (simp add: R_def)
  next
    case (Some off)
    then show ?thesis
      unfolding order fl by (simp add: R_def)
  qed
  then show ?case unfolding R_def n_def .
qed

lemma find_loop_strstr:
  "find_loop rs q d c j = Some (i, off) \<Longrightarrow> strstr (c_str (render (rs ! nat i))) q = Some off"
proof (induction j arbitrary: c)
  case 0
  then show ?case by simp
next
  case (Suc j)
  then show ?case by (auto simp: Let_def split: option.splits if_splits)
qed

lemma three_rows_eq:
  "three_rows =
    \<lparr>cx = 0, cy = 0, rx = 0, row_offset = 0, col_offset = 0, screen_rows = 22, screen_cols = 80,
     row = [\<lparr>chars = ''foo'', render = ''foo'', hl = [HL_NORMAL, HL_NORMAL, HL_NORMAL]\<rparr>,
            \<lparr>chars = ''bar'', render = ''bar'', hl = [HL_NORMAL, HL_NORMAL, HL_NORMAL]\<rparr>,
            \<lparr>chars = ''baz'', render = ''baz'', hl = [HL_NORMAL, HL_NORMAL, HL_NORMAL]\<rparr>],
     dirty = 3, filename = None, syntax_sel = None, quit_times = 3, last_match = - 1,
     direction = 1, saved_hl_line = 0, saved_hl = None\<rparr>"
  by (simp add: three_rows_def editorInsertRow_def initEditor_def num_rows_def editorUpdateRow_def
        editorUpdateSyntax_def render_step_def TAB_def EDI_QUIT_TIMES_def)

lemma find_step1:
  "editorFindCallback ''ba'' 97 three_rows =
     three_rows\<lparr>last_match := 1, cy := 1, cx := 0, row_offset := 3, saved_hl_line := 1,
       saved_hl := Some [HL_NORMAL, HL_NORMAL, HL_NORMAL],
       row := [\<lparr>chars = ''foo'', render = ''foo'', hl = [HL_NORMAL, HL_NORMAL, HL_NORMAL]\<rparr>,
            \<lparr>chars = ''bar'', render = ''bar'', hl = [HL_MATCH, HL_MATCH, HL_NORMAL]\<rparr>,
            \<lparr>chars = ''baz'', render = ''baz'', hl = [HL_NORMAL, HL_NORMAL, HL_NORMAL]\<rparr>]\<rparr>"
  by (simp add: three_rows_eq editorFindCallback_def find_restore_def find_direction_def
        find_search_def key_defs char_int_def CR_def ESC_def c_str_def NUL_def memset_def
        editorRowRxToCx_def advance_rx_def TAB_def num_rows_def Let_def)


lemma find_step2:
  "editorFindCallback ''ba'' ARROW_RIGHT (editorFindCallback ''ba'' 97 three_rows) =
     three_rows\<lparr>last_match := 2, cy := 2, cx := 0, row_offset := 3, saved_hl_line := 2,
       saved_hl := Some [HL_NORMAL, HL_NORMAL, HL_NORMAL],
       row := [\<lparr>chars = ''foo'', render = ''foo'', hl = [HL_NORMAL, HL_NORMAL, HL_NORMAL]\<rparr>,
            \<lparr>chars = ''bar'', render = ''bar'', hl = [HL_NORMAL, HL_NORMAL, HL_NORMAL]\<rparr>,
            \<lparr>chars = ''baz'', render = ''baz'', hl = [HL_MATCH, HL_MATCH, HL_NORMAL]\<rparr>]\<rparr>"
  unfolding find_step1
  by (simp add: three_rows_eq editorFindCallback_def find_restore_def find_direction_def
        find_search_def key_defs char_int_def CR_def ESC_def c_str_def NUL_def memset_def memcpy_def
        editorRowRxToCx_def advance_rx_def TAB_def num_rows_def Let_def)

lemma find_step3:
  "editorFindCallback ''ba'' ARROW_RIGHT
     (editorFindCallback ''ba'' ARROW_RIGHT (editorFindCallback ''ba'' 97 three_rows)) =
     three_rows\<lparr>last_match := 1, cy := 1, cx := 0, row_offset := 3, saved_hl_line := 1,
       saved_hl := Some [HL_NORMAL, HL_NORMAL, HL_NORMAL],
       row := [\<lparr>chars = ''foo'', render = ''foo'', hl = [HL_NORMAL, HL_NORMAL, HL_NORMAL]\<rparr>,
            \<lparr>chars = ''bar'', render = ''bar'', hl = [HL_MATCH, HL_MATCH, HL_NORMAL]\<rparr>,
            \<lparr>chars = ''baz'', render = ''baz'', hl = [HL_NORMAL, HL_NORMAL, HL_NORMAL]\<rparr>]\<rparr>"
  unfolding find_step2
  by (simp add: three_rows_eq editorFindCallback_def find_restore_def find_direction_def
        find_search_def key_defs char_int_def CR_def ESC_def c_str_def NUL_def memset_def memcpy_def
        editorRowRxToCx_def advance_rx_def TAB_def num_rows_def Let_def)

lemma strstr_bound: "strstr hay q = Some off \<Longrightarrow> off + length q \<le> length hay"
proof (induction hay arbitrary: off)
  case Nil
  then show ?case by (simp split: if_splits)
next
  case (Cons x xs)
  show ?case
  proof (cases "take (length q) (x # xs) = q")
    case True
    then have "length (take (length q) (x # xs)) = length q" by simp
    then have "length q \<le> length (x # xs)"
      by (simp add: min_def split: if_splits)
    then show ?thesis using Cons.prems True by simp
  next
    case False
    then obtain o' where "strstr xs q = Some o'" "off = Suc o'"
      using Cons.prems by auto
    then show ?thesis using Cons.IH [of o'] by simp
  qed
qed

lemma strstr_found_iff: "strstr hay q \<noteq> None \<longleftrightarrow> (\<exists>ps ss. hay = ps @ q @ ss)"
proof (induction hay)
  case Nil
  then show ?case by simp
next
  case (Cons x xs)
  show ?case
  proof (cases "take (length q) (x # xs) = q")
    case True
    then have "x # xs = [] @ q @ drop (length q) (x # xs)"
      by (metis append_Nil append_take_drop_id)
    then have "\<exists>ps ss. x # xs = ps @ q @ ss" by blast
    then show ?thesis using True by simp
  next
    case False
    have "(\<exists>ps ss. x # xs = ps @ q @ ss) \<longleftrightarrow> (\<exists>ps ss. xs = ps @ q @ ss)"
    proof
      assume "\<exists>ps ss. x # xs = ps @ q @ ss"
      then obtain ps ss where e: "x # xs = ps @ q @ ss" by blast
      show "\<exists>ps ss. xs = ps @ q @ ss"
      proof (cases ps)
        case Nil
        then have "take (length q) (x # xs) = q" using e by simp
        then show ?thesis using False by simp
      next
        case (Cons p ps')
        then have "xs = ps' @ q @ ss" using e by simp
        then show ?thesis by blast
      qed
    next
      assume "\<exists>ps ss. xs = ps @ q @ ss"
      then obtain ps ss where "xs = ps @ q @ ss" by blast
      then have "x # xs = (x # ps) @ q @ ss" by simp
      then show "\<exists>ps ss. x # xs = ps @ q @ ss" by blast
    qed
    then show ?thesis using False Cons.IH by simp
  qed
qed

lemma strstr_occurrence:
  "strstr hay q = Some off \<Longrightarrow> take (length q) (drop off hay) = q"
proof (induction hay arbitrary: off)
  case Nil
  then show ?case by (simp split: if_splits)
next
  case (Cons x xs)
  show ?case
  proof (cases "take (length q) (x # xs) = q")
    case True
    then show ?thesis using Cons.prems by simp
  next
    case False
    then obtain o' where "strstr xs q = Some o'" "off = Suc o'"
      using Cons.prems by auto
    then show ?thesis using Cons.IH [of o'] by simp
  qed
qed

lemma strstr_least:
  "strstr hay q = Some off \<Longrightarrow> k < off \<Longrightarrow> take (length q) (drop k hay) \<noteq> q"
proof (induction hay arbitrary: off k)
  case Nil
  then show ?case by (simp split: if_splits)
next
  case (Cons x xs)
  show ?case
  proof (cases "take (length q) (x # xs) = q")
    case True
    then show ?thesis using Cons.prems by simp
  next
    case False
    then obtain o' where o: "strstr xs q = Some o'" "off = Suc o'"
      using Cons.prems by auto
    show ?thesis
    proof (cases k)
      case 0
      then show ?thesis using False by simp
    next
      case (Suc k')
      then have "k' < o'" using Cons.prems(2) o(2) by simp
      then show ?thesis using Cons.IH [OF o(1)] Suc by simp
    qed
  qed
qed

lemma c_str_split: "s = c_str s @ dropWhile (\<lambda>c. c \<noteq> NUL) s"
  by (simp add: c_str_def)

lemma take_drop_c_str:
  assumes "k + n \<le> length (c_str s)"
  shows "take n (drop k s) = take n (drop k (c_str s))"
proof -
  have "take n (drop k (c_str s @ dropWhile (\<lambda>c. c \<noteq> NUL) s)) = take n (drop k (c_str s))"
    using assms by simp
  then show ?thesis using c_str_split [of s] by simp
qed

lemma spec_contains_iff: "spec_contains s q \<longleftrightarrow> (\<exists>ps ss. s = ps @ q @ ss)"
proof
  assume "spec_contains s q"
  then obtain k where k: "take (length q) (drop k s) = q"
    by (auto simp: spec_contains_def list_ex_iff)
  have "s = take k s @ q @ drop (length q) (drop k s)"
    by (metis k append_take_drop_id)
  then show "\<exists>ps ss. s = ps @ q @ ss" by blast
next
  assume "\<exists>ps ss. s = ps @ q @ ss"
  then obtain ps ss where e: "s = ps @ q @ ss" by blast
  have "length ps \<in> set [0..<Suc (length s)]" using e by simp
  moreover have "take (length q) (drop (length ps) s) = q" using e by simp
  ultimately show "spec_contains s q"
    unfolding spec_contains_def list_ex_iff by blast
qed

lemma contains_before_nul_iff:
  "contains_before_nul s q \<longleftrightarrow> (\<exists>ps ss. s = ps @ q @ ss \<and> NUL \<notin> set ps \<and> NUL \<notin> set q)"
proof
  assume "contains_before_nul s q"
  then have "\<exists>k\<in>set [0..<Suc (length s)]. take (length q) (drop k s) = q
                  \<and> NUL \<notin> set (take (k + length q) s)"
    unfolding contains_before_nul_def list_ex_iff NUL_def .
  then obtain k where k: "take (length q) (drop k s) = q"
      and z: "NUL \<notin> set (take (k + length q) s)"
    by blast
  have t: "take (k + length q) s = take k s @ q"
    unfolding take_add k ..
  have "s = take k s @ q @ drop (length q) (drop k s)"
    by (metis k append_take_drop_id)
  moreover have "NUL \<notin> set (take k s)" "NUL \<notin> set q"
    using z unfolding t by simp_all
  ultimately show "\<exists>ps ss. s = ps @ q @ ss \<and> NUL \<notin> set ps \<and> NUL \<notin> set q" by blast
next
  assume "\<exists>ps ss. s = ps @ q @ ss \<and> NUL \<notin> set ps \<and> NUL \<notin> set q"
  then obtain ps ss where e: "s = ps @ q @ ss" and z: "NUL \<notin> set ps" "NUL \<notin> set q" by blast
  have "length ps \<in> set [0..<Suc (length s)]" using e by simp
  moreover have "take (length q) (drop (length ps) s) = q" using e by simp
  moreover have "CHR 0x00 \<notin> set (take (length ps + length q) s)"
    using e z by (simp add: NUL_def)
  ultimately show "contains_before_nul s q"
    unfolding contains_before_nul_def list_ex_iff by blast
qed

lemma strstr_c_str_iff:
  "strstr (c_str s) q \<noteq> None \<longleftrightarrow> contains_before_nul s q"
proof -
  have "(\<exists>ps ss. c_str s = ps @ q @ ss) \<longleftrightarrow>
        (\<exists>ps ss. s = ps @ q @ ss \<and> NUL \<notin> set ps \<and> NUL \<notin> set q)"
  proof
    assume "\<exists>ps ss. c_str s = ps @ q @ ss"
    then obtain ps ss where e: "c_str s = ps @ q @ ss" by blast
    have "NUL \<notin> set (c_str s)"
      unfolding c_str_def by (auto dest: set_takeWhileD)
    then have "NUL \<notin> set ps" "NUL \<notin> set q" using e by simp_all
    moreover have "s = ps @ q @ (ss @ dropWhile (\<lambda>c. c \<noteq> NUL) s)"
      using c_str_split [of s] e by simp
    ultimately show "\<exists>ps ss. s = ps @ q @ ss \<and> NUL \<notin> set ps \<and> NUL \<notin> set q" by blast
  next
    assume "\<exists>ps ss. s = ps @ q @ ss \<and> NUL \<notin> set ps \<and> NUL \<notin> set q"
    then obtain ps ss where e: "s = (ps @ q) @ ss" and z: "NUL \<notin> set ps" "NUL \<notin> set q"
      by auto
    have "c \<noteq> NUL" if "c \<in> set (ps @ q)" for c using z that by auto
    then have "takeWhile (\<lambda>c. c \<noteq> NUL) ((ps @ q) @ ss) = (ps @ q) @ takeWhile (\<lambda>c. c \<noteq> NUL) ss"
      by (rule takeWhile_append2)
    then have "c_str s = ps @ q @ takeWhile (\<lambda>c. c \<noteq> NUL) ss"
      unfolding c_str_def e by simp
    then show "\<exists>ps ss. c_str s = ps @ q @ ss" by blast
  qed
  then show ?thesis
    unfolding strstr_found_iff contains_before_nul_iff .
qed

lemma contains_no_nul:
  assumes "NUL \<notin> set s"
  shows "contains_before_nul s q = spec_contains s q"
proof -
  have "CHR 0x00 \<notin> set (take n s)" for n
    using assms by (auto simp: NUL_def dest: in_set_takeD)
  then show ?thesis
    unfolding contains_before_nul_def spec_contains_def by simp
qed

lemma find_cong_set:
  "(\<And>x. x \<in> set xs \<Longrightarrow> P x = Q x) \<Longrightarrow> find P xs = find Q xs"
  by (induction xs) simp_all

lemma find_loop_rows:
  assumes "0 < length rs" "d = 1 \<or> d = -1" "-1 \<le> c" "c < int (length rs)" "c = -1 \<longrightarrow> d = 1"
  shows "map_option fst (find_loop rs q d c (length rs)) =
           first_match_before_nul rs q (spec_scan_order c d (length rs))"
proof -
  have "map_option fst (find_loop rs q d c (length rs)) =
          find (\<lambda>i. strstr (c_str (render (rs ! nat i))) q \<noteq> None)
            (spec_scan_order c d (length rs))"
    unfolding spec_scan_order_def find_loop_order [OF assms, of q "length rs"]
    by (simp split: option.splits)
  then show ?thesis
    unfolding first_match_before_nul_def strstr_c_str_iff .
qed

lemma scan_order_range:
  assumes "0 < n" "i \<in> set (spec_scan_order c d n)"
  shows "0 \<le> i \<and> i < int n"
proof -
  obtain k where "i = (c + d * (1 + int k)) mod int n"
    using assms(2) unfolding spec_scan_order_def by auto
  then show ?thesis using assms(1) by simp
qed

lemma first_match_no_nul:
  assumes "0 < length rs" "\<forall>r\<in>set rs. NUL \<notin> set (render r)"
  shows "first_match_before_nul rs q (spec_scan_order c d (length rs)) =
         spec_first_match rs q (spec_scan_order c d (length rs))"
  unfolding first_match_before_nul_def spec_first_match_def
proof (rule find_cong_set)
  fix i assume "i \<in> set (spec_scan_order c d (length rs))"
  then have "0 \<le> i \<and> i < int (length rs)"
    using scan_order_range [OF assms(1)] by blast
  then have "nat i < length rs" by linarith
  then have "rs ! nat i \<in> set rs" by simp
  then have "NUL \<notin> set (render (rs ! nat i))" using assms(2) by blast
  then show "contains_before_nul (render (rs ! nat i)) q = spec_contains (render (rs ! nat i)) q"
    by (rule contains_no_nul)
qed

lemma find_loop_offset:
  assumes "find_loop rs q d c j = Some (i, off)"
  shows "take (length q) (drop off (render (rs ! nat i))) = q
         \<and> NUL \<notin> set (take (off + length q) (render (rs ! nat i)))
         \<and> (\<forall>k<off. take (length q) (drop k (render (rs ! nat i))) \<noteq> q)"
proof -
  let ?s = "render (rs ! nat i)"
  have s: "strstr (c_str ?s) q = Some off" using assms by (rule find_loop_strstr)
  have b: "off + length q \<le> length (c_str ?s)" using s by (rule strstr_bound)
  have 1: "take (length q) (drop off ?s) = q"
    using take_drop_c_str [OF b] strstr_occurrence [OF s] by simp
  have "take (off + length q) ?s = take (off + length q) (c_str ?s)"
    using take_drop_c_str [of 0 "off + length q" ?s] b by simp
  moreover have "NUL \<notin> set (c_str ?s)"
    unfolding c_str_def by (auto dest: set_takeWhileD)
  ultimately have 2: "NUL \<notin> set (take (off + length q) ?s)"
    by (auto dest: in_set_takeD)
  have 3: "take (length q) (drop k ?s) \<noteq> q" if "k < off" for k
  proof -
    have "k + length q \<le> length (c_str ?s)" using that b by simp
    then have "take (length q) (drop k ?s) = take (length q) (drop k (c_str ?s))"
      by (rule take_drop_c_str)
    then show ?thesis using strstr_least [OF s that] by simp
  qed
  from 1 2 3 show ?thesis by blast
qed

text \<open>
  C4. From a search state with rows, a direction of 1 or -1 and a last match that is a
  row index or -1 (then the direction is 1), the loop of \<open>editorFindCallback\<close> selects
  the first row in the specification's order, from \<open>last_match + direction\<close> on with
  wrapping and each row once, in which the query occurs before the row's first zero
  byte: \<open>strstr\<close> reads the render bytes as a C string. When no render buffer holds a
  zero byte that is the first row whose render bytes contain the query, as the
  specification has it. No match leaves the state as it is; a match moves the cursor
  to that row and to the column of the first occurrence. On the rows \<open>foo\<close>,
  \<open>bar\<close>, \<open>baz\<close> with the query \<open>ba\<close> the first step (a typed byte) goes to
  row 1, \<open>ARROW_RIGHT\<close> to row 2, and \<open>ARROW_RIGHT\<close> again to row 1.
\<close>

theorem search_wraps:
  "(0 < length (row E) \<and> (direction E = 1 \<or> direction E = -1) \<and> -1 \<le> last_match E
      \<and> last_match E < num_rows E \<and> (last_match E = -1 \<longrightarrow> direction E = 1) \<longrightarrow>
      map_option fst (find_loop (row E) q (direction E) (last_match E) (length (row E))) =
        first_match_before_nul (row E) q
          (spec_scan_order (last_match E) (direction E) (length (row E)))
      \<and> ((\<forall>r\<in>set (row E). NUL \<notin> set (render r)) \<longrightarrow>
          map_option fst (find_loop (row E) q (direction E) (last_match E) (length (row E))) =
            spec_first_match (row E) q
              (spec_scan_order (last_match E) (direction E) (length (row E)))))
   \<and> (spec_contains s q \<longleftrightarrow> (\<exists>ps ss. s = ps @ q @ ss))
   \<and> (contains_before_nul s q \<longleftrightarrow> (\<exists>ps ss. s = ps @ q @ ss \<and> NUL \<notin> set ps \<and> NUL \<notin> set q))
   \<and> (find_loop (row E) q (direction E) (last_match E) (length (row E)) = None \<longrightarrow>
        find_search q E = E)
   \<and> (find_loop (row E) q (direction E) (last_match E) (length (row E)) = Some (i, off) \<longrightarrow>
        cy (find_search q E) = i \<and> last_match (find_search q E) = i
        \<and> cx (find_search q E) = editorRowRxToCx (row E ! nat i) (int off)
        \<and> take (length q) (drop off (render (row E ! nat i))) = q
        \<and> NUL \<notin> set (take (off + length q) (render (row E ! nat i)))
        \<and> (\<forall>k<off. take (length q) (drop k (render (row E ! nat i))) \<noteq> q))
   \<and> cy (editorFindCallback ''ba'' (char_int (CHR ''a'')) three_rows) = 1
   \<and> cy (editorFindCallback ''ba'' ARROW_RIGHT
            (editorFindCallback ''ba'' (char_int (CHR ''a'')) three_rows)) = 2
   \<and> cy (editorFindCallback ''ba'' ARROW_RIGHT
            (editorFindCallback ''ba'' ARROW_RIGHT
               (editorFindCallback ''ba'' (char_int (CHR ''a'')) three_rows))) = 1"
proof -
  let ?H = "0 < length (row E) \<and> (direction E = 1 \<or> direction E = -1) \<and> -1 \<le> last_match E
      \<and> last_match E < num_rows E \<and> (last_match E = -1 \<longrightarrow> direction E = 1)"
  let ?L = "find_loop (row E) q (direction E) (last_match E) (length (row E))"
  let ?O = "spec_scan_order (last_match E) (direction E) (length (row E))"
  have a1: "map_option fst ?L = first_match_before_nul (row E) q ?O" if ?H
    using that unfolding num_rows_def by (intro find_loop_rows) simp_all
  have a2: "map_option fst ?L = spec_first_match (row E) q ?O"
    if ?H "\<forall>r\<in>set (row E). NUL \<notin> set (render r)"
  proof -
    have "0 < length (row E)" using that(1) by simp
    then have "first_match_before_nul (row E) q ?O = spec_first_match (row E) q ?O"
      using that(2) by (rule first_match_no_nul)
    then show ?thesis using a1 [OF that(1)] by simp
  qed
  have a: "?H \<longrightarrow> map_option fst ?L = first_match_before_nul (row E) q ?O
      \<and> ((\<forall>r\<in>set (row E). NUL \<notin> set (render r)) \<longrightarrow>
            map_option fst ?L = spec_first_match (row E) q ?O)"
    using a1 a2 by blast
  have b1: "spec_contains s q \<longleftrightarrow> (\<exists>ps ss. s = ps @ q @ ss)"
    by (rule spec_contains_iff)
  have b2: "contains_before_nul s q \<longleftrightarrow>
      (\<exists>ps ss. s = ps @ q @ ss \<and> NUL \<notin> set ps \<and> NUL \<notin> set q)"
    by (rule contains_before_nul_iff)
  have c: "?L = None \<longrightarrow> find_search q E = E"
    by (simp add: find_search_def)
  have d1: "?L = Some (i, off) \<longrightarrow>
        cy (find_search q E) = i \<and> last_match (find_search q E) = i
        \<and> cx (find_search q E) = editorRowRxToCx (row E ! nat i) (int off)"
    by (simp add: find_search_def Let_def)
  have d2: "?L = Some (i, off) \<longrightarrow>
        take (length q) (drop off (render (row E ! nat i))) = q
        \<and> NUL \<notin> set (take (off + length q) (render (row E ! nat i)))
        \<and> (\<forall>k<off. take (length q) (drop k (render (row E ! nat i))) \<noteq> q)"
    using find_loop_offset [of "row E" q "direction E" "last_match E" "length (row E)" i off]
    by blast
  have d: "?L = Some (i, off) \<longrightarrow>
        cy (find_search q E) = i \<and> last_match (find_search q E) = i
        \<and> cx (find_search q E) = editorRowRxToCx (row E ! nat i) (int off)
        \<and> take (length q) (drop off (render (row E ! nat i))) = q
        \<and> NUL \<notin> set (take (off + length q) (render (row E ! nat i)))
        \<and> (\<forall>k<off. take (length q) (drop k (render (row E ! nat i))) \<noteq> q)"
    using d1 d2 by blast
  have k: "char_int (CHR ''a'') = 97" by (simp add: char_int_def)
  have e: "cy (editorFindCallback ''ba'' (char_int (CHR ''a'')) three_rows) = 1"
    "cy (editorFindCallback ''ba'' ARROW_RIGHT
            (editorFindCallback ''ba'' (char_int (CHR ''a'')) three_rows)) = 2"
    "cy (editorFindCallback ''ba'' ARROW_RIGHT
            (editorFindCallback ''ba'' ARROW_RIGHT
               (editorFindCallback ''ba'' (char_int (CHR ''a'')) three_rows))) = 1"
    by (simp add: k find_step1, simp add: k find_step2, simp add: k find_step3)
  from a b1 b2 c d e show ?thesis by blast
qed

lemma scan_order_example: "spec_scan_order 2 1 3 = [0, 1, 2]"
  by code_simp

lemma find_loop_example:
  "find_loop (row three_rows) ''ar'' 1 2 3 = Some (1, 1)"
  "find_loop (row three_rows) ''zz'' 1 2 3 = None"
  unfolding three_rows_eq by code_simp+

lemma first_match_example:
  "spec_first_match (row three_rows) ''ar'' [0, 1, 2] = Some 1"
  "first_match_before_nul (row three_rows) ''ar'' [0, 1, 2] = Some 1"
  unfolding three_rows_eq by code_simp+

theorem search_wraps_witness:
  "0 < length (row (three_rows\<lparr>last_match := 2\<rparr>))
   \<and> direction (three_rows\<lparr>last_match := 2\<rparr>) = 1
   \<and> last_match (three_rows\<lparr>last_match := 2\<rparr>) < num_rows (three_rows\<lparr>last_match := 2\<rparr>)
   \<and> NUL \<notin> set (render (row three_rows ! 0))
   \<and> NUL \<notin> set (render (row three_rows ! 1))
   \<and> NUL \<notin> set (render (row three_rows ! 2))
   \<and> spec_scan_order 2 1 3 = [0, 1, 2]
   \<and> find_loop (row (three_rows\<lparr>last_match := 2\<rparr>)) ''ar'' 1 2 3 = Some (1, 1)
   \<and> map_option fst (find_loop (row three_rows) ''ar'' 1 2 3) =
       spec_first_match (row three_rows) ''ar'' [0, 1, 2]
   \<and> spec_first_match (row three_rows) ''ar'' [0, 1, 2] = Some 1
   \<and> first_match_before_nul (row three_rows) ''ar'' [0, 1, 2] = Some 1
   \<and> cy (find_search ''ar'' (three_rows\<lparr>last_match := 2\<rparr>)) = 1
   \<and> cx (find_search ''ar'' (three_rows\<lparr>last_match := 2\<rparr>)) = 1
   \<and> take (length ''ar'') (drop 1 (render (row three_rows ! 1))) = ''ar''
   \<and> take (length ''ar'') (drop 0 (render (row three_rows ! 1))) \<noteq> ''ar''
   \<and> find_search ''zz'' (three_rows\<lparr>last_match := 2\<rparr>) = three_rows\<lparr>last_match := 2\<rparr>"
proof -
  let ?W = "three_rows\<lparr>last_match := 2\<rparr>"
  have r: "row ?W = row three_rows" "direction ?W = 1" "last_match ?W = 2" "num_rows ?W = 3"
    "length (row three_rows) = 3"
    by (simp_all add: three_rows_eq num_rows_def)
  have h: "0 < length (row ?W) \<and> (direction ?W = 1 \<or> direction ?W = -1) \<and> -1 \<le> last_match ?W
      \<and> last_match ?W < num_rows ?W \<and> (last_match ?W = -1 \<longrightarrow> direction ?W = 1)"
    unfolding r by simp
  have z: "\<forall>r\<in>set (row three_rows). NUL \<notin> set (render r)"
    by (simp add: three_rows_eq NUL_def)
  have z': "NUL \<notin> set (render (row three_rows ! 0))"
    "NUL \<notin> set (render (row three_rows ! 1))" "NUL \<notin> set (render (row three_rows ! 2))"
    by (simp_all add: three_rows_eq NUL_def)
  have x: "editorRowRxToCx (row three_rows ! nat 1) (int 1) = 1"
    by (simp add: three_rows_eq editorRowRxToCx_def advance_rx_def TAB_def)
  note T = search_wraps [of ?W "''ar''" "''bar''" 1 1, unfolded r]
  note Z = search_wraps [of ?W "''zz''" "''bar''" 1 1, unfolded r]
  have 1: "map_option fst (find_loop (row three_rows) ''ar'' 1 2 3) =
      spec_first_match (row three_rows) ''ar'' (spec_scan_order 2 1 3)"
    using T h [unfolded r] z by blast
  have 2: "cy (find_search ''ar'' ?W) = 1"
    "cx (find_search ''ar'' ?W) = editorRowRxToCx (row three_rows ! nat 1) (int 1)"
    "take (length ''ar'') (drop 1 (render (row three_rows ! nat 1))) = ''ar''"
    "\<forall>k<1. take (length ''ar'') (drop k (render (row three_rows ! nat 1))) \<noteq> ''ar''"
    using T find_loop_example(1) by blast+
  have 3: "find_search ''zz'' ?W = ?W"
    using Z find_loop_example(2) by blast
  show ?thesis
    using 1 2 3 h z' x find_loop_example(1) first_match_example
    unfolding r scan_order_example by simp
qed

lemma nul_row_doc_eq:
  "nul_row_doc =
    \<lparr>cx = 4, cy = 0, rx = 0, row_offset = 0, col_offset = 0, screen_rows = 22, screen_cols = 80,
     row = [\<lparr>chars = [CHR ''x'', CHR 0x00, CHR ''b'', CHR ''a''],
             render = [CHR ''x'', CHR 0x00, CHR ''b'', CHR ''a''],
             hl = [HL_NORMAL, HL_NORMAL, HL_NORMAL, HL_NORMAL]\<rparr>],
     dirty = 5, filename = None, syntax_sel = None, quit_times = 3, last_match = - 1,
     direction = 1, saved_hl_line = 0, saved_hl = None\<rparr>"
proof -
  have c: "char_of (120::int) = CHR ''x''" "char_of (0::int) = CHR 0x00"
    "char_of (98::int) = CHR ''b''" "char_of (97::int) = CHR ''a''"
    by code_simp+
  show ?thesis
    by (simp add: nul_row_doc_def editorInsertChar_def editorInsertRow_def
        editorRowInsertChar_def initEditor_def num_rows_def row_size_def editorUpdateRow_def
        editorUpdateSyntax_def render_step_def TAB_def EDI_QUIT_TIMES_def Let_def c)
qed

text \<open>
  C4 as stated fails on a row with a zero byte. The row typed as \<open>x\<close>, zero byte, \<open>b\<close>, \<open>a\<close> has the render bytes \<open>x\<close>, zero,
  \<open>b\<close>, \<open>a\<close>, which contain the query \<open>ba\<close>: the specification's search selects
  row 0. The loop of \<open>editorFindCallback\<close> finds no row, and the search step for the
  query leaves the editor as it was, the cursor not moved and no match recorded.
\<close>

theorem search_nul_counterexample:
  "render (row nul_row_doc ! 0) = [CHR ''x'', NUL, CHR ''b'', CHR ''a'']
   \<and> spec_contains (render (row nul_row_doc ! 0)) ''ba''
   \<and> spec_first_match (row nul_row_doc) ''ba''
        (spec_scan_order (last_match nul_row_doc) (direction nul_row_doc)
           (length (row nul_row_doc))) = Some 0
   \<and> find_loop (row nul_row_doc) ''ba'' (direction nul_row_doc) (last_match nul_row_doc)
        (length (row nul_row_doc)) = None
   \<and> editorFindCallback ''ba'' (char_int (CHR ''a'')) nul_row_doc = nul_row_doc"
proof -
  have 1: "render (row nul_row_doc ! 0) = [CHR ''x'', NUL, CHR ''b'', CHR ''a'']"
    by (simp add: nul_row_doc_eq NUL_def)
  have 2: "spec_contains (render (row nul_row_doc ! 0)) ''ba''"
    unfolding nul_row_doc_eq by code_simp
  have 3: "spec_first_match (row nul_row_doc) ''ba''
        (spec_scan_order (last_match nul_row_doc) (direction nul_row_doc)
           (length (row nul_row_doc))) = Some 0"
    unfolding nul_row_doc_eq by code_simp
  have 4: "find_loop (row nul_row_doc) ''ba'' (direction nul_row_doc) (last_match nul_row_doc)
        (length (row nul_row_doc)) = None"
    unfolding nul_row_doc_eq by code_simp
  have 5: "editorFindCallback ''ba'' (char_int (CHR ''a'')) nul_row_doc = nul_row_doc"
    using 4
    by (simp add: editorFindCallback_def find_restore_def find_direction_def find_search_def
          key_defs char_int_def CR_def ESC_def nul_row_doc_eq)
  from 1 2 3 4 5 show ?thesis by blast
qed

section \<open>Highlight buffers keep the length of the render string\<close>

lemma length_syntax_loop:
  "length h = length rnd \<Longrightarrow> length (syntax_loop syn rnd h ps ins i) = length rnd"
proof (induction "length rnd - i" arbitrary: h ps ins i rule: less_induct)
  case less
  have IH: "length (syntax_loop syn rnd h' ps' ins' i') = length rnd"
    if "i < i'" "i < length rnd" "length h' = length rnd" for h' ps' ins' i'
    using that by (intro less.hyps) auto
  show ?case
  proof (cases "i < length rnd")
    case True
    then show ?thesis
      using less.prems by (subst syntax_loop.simps) (simp add: Let_def IH)
  next
    case False
    then show ?thesis
      using less.prems by (subst syntax_loop.simps) simp
  qed
qed

lemma row_hl_ok_editorUpdateSyntax: "row_hl_ok (editorUpdateSyntax syn r)"
  by (simp add: row_hl_ok_def rsize_def editorUpdateSyntax_def Let_def length_syntax_loop
      split: option.splits)

lemma row_hl_ok_editorUpdateRow: "row_hl_ok (editorUpdateRow syn r)"
  by (simp add: editorUpdateRow_def row_hl_ok_editorUpdateSyntax)

lemma list_all_update:
  assumes "list_all P xs" "i < length xs \<Longrightarrow> P x"
  shows "list_all P (xs[i := x])"
proof (cases "i < length xs")
  case True
  have "set (xs[i := x]) \<subseteq> insert x (set xs)" by (rule set_update_subset_insert)
  then show ?thesis using assms True by (auto simp: list_all_iff)
next
  case False
  then have "length xs \<le> i" by simp
  then have "xs[i := x] = xs" by (rule list_update_beyond)
  then show ?thesis using assms(1) by simp
qed

lemma list_all_take_drop:
  "list_all P xs \<Longrightarrow> list_all P (take n xs) \<and> list_all P (drop n xs)"
  by (auto simp: list_all_iff dest: in_set_takeD in_set_dropD)

lemma hl_ok_editorInsertRow: "hl_ok E \<Longrightarrow> hl_ok (editorInsertRow at s E)"
  by (simp add: hl_ok_def editorInsertRow_def list_all_take_drop row_hl_ok_editorUpdateRow)

lemma hl_ok_editorDelRow: "hl_ok E \<Longrightarrow> hl_ok (editorDelRow at E)"
  by (simp add: hl_ok_def editorDelRow_def list_all_take_drop)

lemma hl_ok_editorRowInsertChar: "hl_ok E \<Longrightarrow> hl_ok (editorRowInsertChar i at c E)"
  by (simp add: hl_ok_def editorRowInsertChar_def Let_def list_all_update row_hl_ok_editorUpdateRow)

lemma hl_ok_editorRowAppendString: "hl_ok E \<Longrightarrow> hl_ok (editorRowAppendString i s E)"
  by (simp add: hl_ok_def editorRowAppendString_def Let_def list_all_update row_hl_ok_editorUpdateRow)

lemma hl_ok_editorRowDelChar: "hl_ok E \<Longrightarrow> hl_ok (editorRowDelChar i at E)"
  by (simp add: hl_ok_def editorRowDelChar_def Let_def list_all_update row_hl_ok_editorUpdateRow)

lemma hl_ok_cursor [simp]: "hl_ok (E\<lparr>cx := a\<rparr>) = hl_ok E" "hl_ok (E\<lparr>cy := b\<rparr>) = hl_ok E"
  by (simp_all add: hl_ok_def)

lemma hl_ok_editorInsertChar: "hl_ok E \<Longrightarrow> hl_ok (editorInsertChar c E)"
  by (simp add: editorInsertChar_def Let_def hl_ok_editorRowInsertChar hl_ok_editorInsertRow)

lemma hl_ok_editorInsertNewline: "hl_ok E \<Longrightarrow> hl_ok (editorInsertNewline E)"
proof -
  assume a: "hl_ok E"
  have u: "hl_ok X \<Longrightarrow> hl_ok (X\<lparr>row := (row X)[n := editorUpdateRow syn y]\<rparr>)" for X n syn y
    by (simp add: hl_ok_def list_all_update row_hl_ok_editorUpdateRow)
  show ?thesis using a
    by (simp add: editorInsertNewline_def Let_def hl_ok_editorInsertRow u)
qed

lemma hl_ok_editorDelChar: "hl_ok E \<Longrightarrow> hl_ok (editorDelChar E)"
  by (simp add: editorDelChar_def Let_def hl_ok_editorRowDelChar hl_ok_editorRowAppendString
        hl_ok_editorDelRow)

lemma hl_ok_editorSelectSyntaxHighlight: "hl_ok E \<Longrightarrow> hl_ok (editorSelectSyntaxHighlight E)"
  by (simp add: editorSelectSyntaxHighlight_def Let_def hl_ok_def list_all_iff
        row_hl_ok_editorUpdateSyntax split: option.splits)


lemma find_loop_range:
  assumes "0 < length rs" "d = 1 \<or> d = -1" "-1 \<le> c" "c < int (length rs)" "c = -1 \<longrightarrow> d = 1"
    and "find_loop rs q d c j = Some (i, off)"
  shows "0 \<le> i \<and> i < int (length rs)"
proof -
  let ?f = "\<lambda>k. (c + d * (1 + int k)) mod int (length rs)"
  have "find (\<lambda>i. strstr (c_str (render (rs ! nat i))) q \<noteq> None) (map ?f [0..<j]) = Some i"
    using find_loop_order [OF assms(1,2,3,4,5), of q j] assms(6)
    by (auto split: option.splits)
  then have "i \<in> set (map ?f [0..<j])"
    by (auto simp: find_Some_iff in_set_conv_nth)
  then obtain k where "i = ?f k" by auto
  then show ?thesis using assms(1) by simp
qed

lemma length_c_str: "length (c_str s) \<le> length s"
  by (simp add: c_str_def length_takeWhile_le)

lemma hl_ok_find_restore: "\<lbrakk>hl_ok E; saved_ok E\<rbrakk> \<Longrightarrow> hl_ok (find_restore E)"
proof (cases "saved_hl E")
  case None
  assume "hl_ok E"
  then show ?thesis using None by (simp add: find_restore_def)
next
  case (Some sv)
  assume a: "hl_ok E" "saved_ok E"
  define l where "l = nat (saved_hl_line E)"
  define r where "r = row E ! l"
  have le: "length (render r) \<le> length sv"
    using a(2) Some by (simp add: saved_ok_def r_def l_def)
  have "row_hl_ok (r\<lparr>hl := memcpy (hl r) sv (length (render r))\<rparr>)" if "l < length (row E)"
  proof -
    have "row_hl_ok r" using a(1) that by (simp add: hl_ok_def list_all_length r_def)
    then show ?thesis using le by (simp add: row_hl_ok_def rsize_def memcpy_def)
  qed
  then show ?thesis
    using a(1) Some
    by (simp add: find_restore_def Let_def hl_ok_def l_def [symmetric] r_def [symmetric]
          list_all_update)
qed

lemma hl_ok_find_search: "hl_ok E \<Longrightarrow> hl_ok (find_search q E)"
proof (cases "find_loop (row E) q (direction E) (last_match E) (length (row E))")
  case None
  assume "hl_ok E"
  then show ?thesis using None by (simp add: find_search_def)
next
  case (Some p)
  assume a: "hl_ok E"
  obtain i off where p: "p = (i, off)" by (cases p)
  define r where "r = row E ! nat i"
  have s: "strstr (c_str (render r)) q = Some off"
    using Some p find_loop_strstr unfolding r_def by blast
  have b: "off + length q \<le> length (render r)"
    using strstr_bound [OF s] length_c_str [of "render r"] by simp
  have "row_hl_ok (r\<lparr>hl := memset (hl r) off HL_MATCH (length q)\<rparr>)" if "nat i < length (row E)"
  proof -
    have "row_hl_ok r" using a that by (simp add: hl_ok_def list_all_length r_def)
    then show ?thesis using b by (simp add: row_hl_ok_def rsize_def memset_def)
  qed
  then show ?thesis
    using a Some p
    by (simp add: find_search_def Let_def hl_ok_def r_def [symmetric] list_all_update)
qed

lemma hl_ok_find_direction [simp]: "hl_ok (find_direction k E) = hl_ok E"
  by (simp add: hl_ok_def)

lemma hl_ok_editorFindCallback:
  "\<lbrakk>hl_ok E; saved_ok E\<rbrakk> \<Longrightarrow> hl_ok (editorFindCallback q k E)"
proof -
  assume a: "hl_ok E" "saved_ok E"
  have 1: "hl_ok (find_restore E)" using a by (rule hl_ok_find_restore)
  then have 2: "hl_ok (find_search q (find_direction k (find_restore E)))"
    by (intro hl_ok_find_search) simp
  from 1 have 3: "hl_ok (find_restore E\<lparr>last_match := -1, direction := 1\<rparr>)"
    by (simp add: hl_ok_def)
  show ?thesis using 2 3 by (simp add: editorFindCallback_def Let_def)
qed

lemma find_direction_state:
  "last_match_ok E \<Longrightarrow> last_match_ok (find_direction k E)"
  "direction (find_direction k E) = 1 \<or> direction (find_direction k E) = -1"
  "last_match (find_direction k E) = -1 \<longrightarrow> direction (find_direction k E) = 1"
  by (auto simp: find_direction_def Let_def last_match_ok_def num_rows_def)

lemma saved_ok_find_search:
  assumes "hl_ok E" "last_match_ok E" "saved_hl E = None"
    "direction E = 1 \<or> direction E = -1" "last_match E = -1 \<longrightarrow> direction E = 1"
  shows "saved_ok (find_search q E) \<and> last_match_ok (find_search q E)"
proof (cases "find_loop (row E) q (direction E) (last_match E) (length (row E))")
  case None
  then show ?thesis using assms by (simp add: find_search_def saved_ok_def)
next
  case (Some p)
  obtain i off where p: "p = (i, off)" by (cases p)
  have ne: "0 < length (row E)"
    using Some by (cases "row E") simp_all
  have rg: "0 \<le> i \<and> i < int (length (row E))"
    using find_loop_range [OF ne assms(4) _ _ assms(5), of q "length (row E)" i off]
      assms(2) Some p by (simp add: last_match_ok_def num_rows_def)
  define r where "r = row E ! nat i"
  have ni: "nat i < length (row E)" using rg by linarith
  have "row_hl_ok r" using assms(1) ni by (simp add: hl_ok_def list_all_length r_def)
  then have "length (render r) = length (hl r)" by (simp add: row_hl_ok_def rsize_def)
  then show ?thesis
    using Some p rg ni
    by (simp add: find_search_def Let_def saved_ok_def last_match_ok_def num_rows_def
          r_def [symmetric])
qed

lemma search_state_editorFindCallback:
  assumes "hl_ok E" "saved_ok E" "last_match_ok E"
  shows "saved_ok (editorFindCallback q k E) \<and> last_match_ok (editorFindCallback q k E)"
proof -
  let ?E1 = "find_restore E"
  have h1: "hl_ok ?E1" using assms(1,2) by (rule hl_ok_find_restore)
  have n1: "saved_hl ?E1 = None" by (simp add: find_restore_def Let_def split: option.splits)
  have len1: "num_rows ?E1 = num_rows E"
    by (simp add: find_restore_def Let_def num_rows_def split: option.splits)
  have l1: "last_match_ok ?E1" using assms(3) len1 by (simp add: last_match_ok_def)
  have stop: "saved_ok (?E1\<lparr>last_match := -1, direction := 1\<rparr>)
            \<and> last_match_ok (?E1\<lparr>last_match := -1, direction := 1\<rparr>)"
    using n1 by (simp add: saved_ok_def last_match_ok_def num_rows_def)
  have go: "saved_ok (find_search q (find_direction k ?E1))
          \<and> last_match_ok (find_search q (find_direction k ?E1))"
    using h1 l1 n1 by (intro saved_ok_find_search find_direction_state) simp_all
  show ?thesis using stop go by (simp add: editorFindCallback_def Let_def)
qed

text \<open>
  C2. \<open>editorUpdateRow\<close> and \<open>editorUpdateSyntax\<close> leave any row with one highlight
  entry for each rendered byte. In a document where that holds for all rows, with the
  cursor in bounds and a consistent search state, it still holds for all rows after a
  row insert or delete, a character insert, delete or append (on a row of the document),
  a newline, the selection of the syntax, and a step of the search callback (its restore
  and its match overlay), which also keeps the search state consistent.
\<close>

theorem hl_length_invariant:
  assumes "hl_ok E" "saved_ok E" "last_match_ok E" "cursor_inv E"
  shows "row_hl_ok (editorUpdateRow syn r) \<and> row_hl_ok (editorUpdateSyntax syn r)
       \<and> hl_ok (editorInsertRow at s E) \<and> hl_ok (editorDelRow at E)
       \<and> (0 \<le> i \<and> i < num_rows E \<longrightarrow>
            hl_ok (editorRowInsertChar i at c E) \<and> hl_ok (editorRowDelChar i at E)
            \<and> hl_ok (editorRowAppendString i s E))
       \<and> hl_ok (editorInsertChar c E) \<and> hl_ok (editorDelChar E) \<and> hl_ok (editorInsertNewline E)
       \<and> hl_ok (editorSelectSyntaxHighlight E)
       \<and> hl_ok (editorFindCallback q k E) \<and> saved_ok (editorFindCallback q k E)
       \<and> last_match_ok (editorFindCallback q k E)"
proof -
  have f: "saved_ok (editorFindCallback q k E) \<and> last_match_ok (editorFindCallback q k E)"
    using assms(1-3) by (rule search_state_editorFindCallback)
  show ?thesis
    using assms(1,2) f
    by (simp add: row_hl_ok_editorUpdateRow row_hl_ok_editorUpdateSyntax hl_ok_editorInsertRow
          hl_ok_editorDelRow hl_ok_editorRowInsertChar hl_ok_editorRowDelChar
          hl_ok_editorRowAppendString hl_ok_editorInsertChar hl_ok_editorDelChar
          hl_ok_editorInsertNewline hl_ok_editorSelectSyntaxHighlight hl_ok_editorFindCallback)
qed

lemma c_row_example:
  "editorUpdateRow (Some (hd HLDB)) \<lparr>chars = [CHR ''1'', CHR ''+'', CHR 0x22, CHR ''a'', CHR 0x22, TAB, CHR ''/'', CHR ''/'', CHR ''x''], render = [], hl = []\<rparr>
   = \<lparr>chars = [CHR ''1'', CHR ''+'', CHR 0x22, CHR ''a'', CHR 0x22, TAB, CHR ''/'', CHR ''/'', CHR ''x''],
      render = [CHR ''1'', CHR ''+'', CHR 0x22, CHR ''a'', CHR 0x22, CHR '' '', CHR '' '', CHR '' '', CHR ''/'', CHR ''/'', CHR ''x''],
      hl = [HL_NUMBER, HL_NORMAL, HL_STRING, HL_STRING, HL_STRING, HL_NORMAL, HL_NORMAL, HL_NORMAL,
            HL_COMMENT, HL_COMMENT, HL_COMMENT]\<rparr>"
  by code_simp

theorem hl_length_invariant_witness:
  "hl_ok (editorFindCallback ''ba'' 97 three_rows)
   \<and> saved_ok (editorFindCallback ''ba'' 97 three_rows)
   \<and> last_match_ok (editorFindCallback ''ba'' 97 three_rows)
   \<and> cursor_inv (editorFindCallback ''ba'' 97 three_rows)
   \<and> hl_ok (editorFindCallback ''ba'' ARROW_RIGHT (editorFindCallback ''ba'' 97 three_rows))
   \<and> map hl (row (editorFindCallback ''ba'' ARROW_RIGHT (editorFindCallback ''ba'' 97 three_rows)))
       = [[HL_NORMAL, HL_NORMAL, HL_NORMAL], [HL_NORMAL, HL_NORMAL, HL_NORMAL],
          [HL_MATCH, HL_MATCH, HL_NORMAL]]
   \<and> row_hl_ok (editorUpdateRow (Some (hd HLDB))
        \<lparr>chars = [CHR ''1'', CHR ''+'', CHR 0x22, CHR ''a'', CHR 0x22, TAB, CHR ''/'', CHR ''/'', CHR ''x''], render = [], hl = []\<rparr>)"
proof -
  let ?W = "editorFindCallback ''ba'' 97 three_rows"
  have h: "hl_ok ?W" "saved_ok ?W" "last_match_ok ?W" "cursor_inv ?W"
    unfolding find_step1
    by (simp_all add: hl_ok_def row_hl_ok_def rsize_def saved_ok_def last_match_ok_def
          cursor_inv_def cursor_ok_def row_size_def num_rows_def three_rows_eq)
  note T = hl_length_invariant [OF h, where syn = "Some (hd HLDB)"
      and r = "\<lparr>chars = [CHR ''1'', CHR ''+'', CHR 0x22, CHR ''a'', CHR 0x22, TAB, CHR ''/'', CHR ''/'', CHR ''x''], render = [], hl = []\<rparr>"
      and q = "''ba''" and k = ARROW_RIGHT]
  have m: "map hl (row (editorFindCallback ''ba'' ARROW_RIGHT ?W))
       = [[HL_NORMAL, HL_NORMAL, HL_NORMAL], [HL_NORMAL, HL_NORMAL, HL_NORMAL],
          [HL_MATCH, HL_MATCH, HL_NORMAL]]"
    unfolding find_step2 by (simp add: three_rows_eq)
  from T h m show ?thesis by blast
qed

section \<open>The cursor stays inside the document\<close>

lemma cursor_inv_loose: "cursor_inv E \<Longrightarrow> cursor_loose E"
  by (auto simp: cursor_inv_def cursor_ok_def cursor_loose_def)

lemma cursor_inv_iff:
  "cursor_inv E \<longleftrightarrow>
     0 \<le> cy E \<and> cy E \<le> num_rows E \<and> 0 \<le> cx E
     \<and> cx E \<le> (if cy E < num_rows E then row_size (row E ! nat (cy E)) else 0)"
  by (auto simp: cursor_inv_def cursor_ok_def)

lemma cursor_invD:
  assumes "cursor_inv E"
  shows "0 \<le> cy E" "cy E \<le> num_rows E" "0 \<le> cx E"
    "cy E < num_rows E \<Longrightarrow> cx E \<le> row_size (row E ! nat (cy E))"
    "cy E = num_rows E \<Longrightarrow> cx E = 0"
  using assms by (auto simp: cursor_inv_def cursor_ok_def)

lemma row_size_nonneg [simp]: "0 \<le> row_size r"
  by (simp add: row_size_def)

lemma cursor_loose_move_key: "cursor_loose E \<Longrightarrow> cursor_loose (move_key k E)"
  by (auto simp: cursor_loose_def move_key_def current_row_def num_rows_def split: option.splits)

lemma cursor_inv_clamp_cx: "cursor_loose E \<Longrightarrow> cursor_inv (clamp_cx E)"
  by (auto simp: cursor_loose_def cursor_inv_iff clamp_cx_def current_row_def Let_def num_rows_def)

lemma cursor_inv_editorMoveCursor: "cursor_loose E \<Longrightarrow> cursor_inv (editorMoveCursor k E)"
  by (simp add: editorMoveCursor_def cursor_inv_clamp_cx cursor_loose_move_key)

lemma cursor_inv_funpow_move:
  "cursor_loose E \<Longrightarrow> 0 < n \<Longrightarrow> cursor_inv ((editorMoveCursor k ^^ n) E)"
proof (induction n arbitrary: E)
  case 0
  then show ?case by simp
next
  case (Suc n)
  have 1: "cursor_inv (editorMoveCursor k E)" using Suc.prems(1) by (rule cursor_inv_editorMoveCursor)
  show ?case
  proof (cases "n = 0")
    case True
    then show ?thesis using 1 by simp
  next
    case False
    then have "cursor_inv ((editorMoveCursor k ^^ n) (editorMoveCursor k E))"
      using 1 by (intro Suc.IH cursor_inv_loose) simp_all
    then show ?thesis by (simp add: funpow_swap1)
  qed
qed

lemma funpow_move_keeps [simp]:
  "row ((editorMoveCursor k ^^ n) E) = row E"
  "row_offset ((editorMoveCursor k ^^ n) E) = row_offset E"
  "screen_rows ((editorMoveCursor k ^^ n) E) = screen_rows E"
  "last_match ((editorMoveCursor k ^^ n) E) = last_match E"
  by (induction n) simp_all



lemma cursor_inv_editorInsertChar: "cursor_inv E \<Longrightarrow> cursor_inv (editorInsertChar c E)"
proof (cases "cy E = num_rows E")
  case True
  assume a: "cursor_inv E"
  then have c0: "cx E = 0" using True by (simp add: cursor_inv_def)
  have n: "nat (cy E) = length (row E)" using True by (simp add: num_rows_def)
  show ?thesis using True c0 n
    by (simp add: cursor_inv_iff editorInsertChar_def Let_def editorInsertRow_def
          editorRowInsertChar_def num_rows_def row_size_def nth_append)
next
  case False
  assume a: "cursor_inv E"
  then have b: "0 \<le> cy E" "cy E < num_rows E" "0 \<le> cx E" "cx E \<le> row_size (row E ! nat (cy E))"
    using False cursor_invD [of E] by simp_all
  then have n: "nat (cy E) < length (row E)" unfolding num_rows_def by linarith
  show ?thesis using False b n
    by (simp add: cursor_inv_iff editorInsertChar_def Let_def
          editorRowInsertChar_def num_rows_def row_size_def)
qed


lemma num_rows_editorInsertRow:
  "\<lbrakk>0 \<le> at; at \<le> num_rows E\<rbrakk> \<Longrightarrow> num_rows (editorInsertRow at s E) = num_rows E + 1"
  by (simp add: editorInsertRow_def num_rows_def)

lemma cursor_inv_editorInsertNewline: "cursor_inv E \<Longrightarrow> cursor_inv (editorInsertNewline E)"
proof -
  assume a: "cursor_inv E"
  have c: "cy (editorInsertNewline E) = cy E + 1" "cx (editorInsertNewline E) = 0"
    by (simp_all add: editorInsertNewline_def Let_def)
  have b: "0 \<le> cy E" "cy E \<le> num_rows E" using a by (simp_all add: cursor_invD)
  have "cx E \<noteq> 0 \<Longrightarrow> cy E < num_rows E"
    using cursor_invD(5) [OF a] b by linarith
  then have n: "num_rows (editorInsertNewline E) = num_rows E + 1"
    using b by (cases "cx E = 0")
      (simp_all add: editorInsertNewline_def Let_def num_rows_def row_editorInsertRow)
  show ?thesis
    unfolding cursor_inv_iff c n using b by simp
qed


lemma cursor_inv_editorDelChar: "cursor_inv E \<Longrightarrow> cursor_inv (editorDelChar E)"
proof -
  assume a: "cursor_inv E"
  consider "cy E = num_rows E" | "cx E = 0 \<and> cy E = 0" | "cy E < num_rows E \<and> 0 < cx E"
    | "cy E < num_rows E \<and> cx E = 0 \<and> 0 < cy E"
    using cursor_invD(1-3) [OF a] by linarith
  then show ?thesis
  proof cases
    case 1
    then show ?thesis using a by (simp add: editorDelChar_def)
  next
    case 2
    then show ?thesis using a by (simp add: editorDelChar_def)
  next
    case 3
    then have b: "0 \<le> cy E" "cx E \<le> row_size (row E ! nat (cy E))"
      using cursor_invD [OF a] by simp_all
    then have n: "nat (cy E) < length (row E)" using 3 unfolding num_rows_def by linarith
    show ?thesis using 3 b n
      by (simp add: cursor_inv_iff editorDelChar_def Let_def editorRowDelChar_def
            num_rows_def row_size_def)
  next
    case 4
    define n where "n = nat (cy E) - 1"
    have n: "cy E = int (Suc n)" using 4 unfolding n_def by linarith
    have lt: "Suc n < length (row E)" using 4 n by (simp add: num_rows_def)
    note J = editorDelChar_join [of E n]
    have r: "row (editorDelChar E) =
           take (Suc n) ((row E)[n := editorUpdateRow (syntax_sel E)
                    ((row E ! n)\<lparr>chars := chars (row E ! n) @ chars (row E ! Suc n)\<rparr>)])
           @ drop (Suc (Suc n)) (row E)"
      and c: "cy (editorDelChar E) = int n" "cx (editorDelChar E) = row_size (row E ! n)"
      using J 4 n by simp_all
    have len: "num_rows (editorDelChar E) = num_rows E - 1"
      using lt by (simp add: r num_rows_def)
    have at: "row (editorDelChar E) ! n = editorUpdateRow (syntax_sel E)
                    ((row E ! n)\<lparr>chars := chars (row E ! n) @ chars (row E ! Suc n)\<rparr>)"
      using lt by (simp add: r nth_append)
    show ?thesis
      using lt 4 by (simp add: cursor_inv_iff c len at) (simp add: row_size_def num_rows_def)
  qed
qed

lemma map_chars_update:
  "chars x = chars (xs ! i) \<Longrightarrow> map chars (xs[i := x]) = map chars xs"
proof (rule nth_equalityI)
  show "length (map chars (xs[i := x])) = length (map chars xs)" by simp
next
  fix j assume a: "chars x = chars (xs ! i)" "j < length (map chars (xs[i := x]))"
  then have "j < length xs" by simp
  then show "map chars (xs[i := x]) ! j = map chars xs ! j"
    using a(1) by (cases "j = i") simp_all
qed

lemma chars_nth_eq:
  assumes "map chars xs = map chars ys" "i < length ys"
  shows "chars (xs ! i) = chars (ys ! i)"
proof -
  have l: "length xs = length ys" using assms(1) by (rule map_eq_imp_length_eq)
  have "map chars xs ! i = map chars ys ! i" using assms(1) by simp
  then show ?thesis using assms(2) l by simp
qed

lemma cursor_inv_cong:
  assumes "map chars (row E') = map chars (row E)" "cx E' = cx E" "cy E' = cy E"
  shows "cursor_inv E' = cursor_inv E"
proof -
  have l: "length (row E') = length (row E)" using assms(1) by (rule map_eq_imp_length_eq)
  have "row_size (row E' ! i) = row_size (row E ! i)" if "i < length (row E)" for i
  proof -
    have "map chars (row E') ! i = map chars (row E) ! i" using assms(1) by simp
    then show ?thesis using that l by (simp add: row_size_def)
  qed
  then have "cy E < num_rows E \<Longrightarrow> 0 \<le> cy E \<Longrightarrow>
      row_size (row E' ! nat (cy E)) = row_size (row E ! nat (cy E))"
    by (simp add: num_rows_def)
  then show ?thesis
    using l assms(2,3) by (auto simp: cursor_inv_def cursor_ok_def num_rows_def)
qed

lemma chars_find_restore [simp]: "map chars (row (find_restore E)) = map chars (row E)"
  by (simp add: find_restore_def Let_def map_chars_update split: option.splits)

lemma chars_find_search [simp]: "map chars (row (find_search q E)) = map chars (row E)"
  by (simp add: find_search_def Let_def map_chars_update split: option.splits prod.splits)

lemma chars_editorFindCallback [simp]:
  "map chars (row (editorFindCallback q k E)) = map chars (row E)"
  by (simp add: editorFindCallback_def Let_def)

lemma chars_editorSelectSyntaxHighlight [simp]:
  "map chars (row (editorSelectSyntaxHighlight E)) = map chars (row E)"
  by (simp add: editorSelectSyntaxHighlight_def Let_def comp_def split: option.splits)

lemma num_rows_chars: "map chars (row E') = map chars (row E) \<Longrightarrow> num_rows E' = num_rows E"
  unfolding num_rows_def by (drule map_eq_imp_length_eq) simp

lemma last_match_ok_find_search:
  assumes "last_match_ok E" "direction E = 1 \<or> direction E = -1"
    "last_match E = -1 \<longrightarrow> direction E = 1"
  shows "last_match_ok (find_search q E)"
    and "find_loop (row E) q (direction E) (last_match E) (length (row E)) = Some (i, off)
         \<Longrightarrow> 0 \<le> i \<and> i < num_rows E"
proof -
  show rg: "0 \<le> i \<and> i < num_rows E"
    if s: "find_loop (row E) q (direction E) (last_match E) (length (row E)) = Some (i, off)"
    for i off
  proof -
    have ne: "0 < length (row E)" using s by (cases "row E") simp_all
    show ?thesis
      using find_loop_range [OF ne assms(2) _ _ assms(3) s] assms(1)
      by (simp add: last_match_ok_def num_rows_def)
  qed
  show "last_match_ok (find_search q E)"
  proof (cases "find_loop (row E) q (direction E) (last_match E) (length (row E))")
    case None
    then show ?thesis using assms(1) by (simp add: find_search_def)
  next
    case (Some p)
    obtain i off where p: "p = (i, off)" by (cases p)
    have "num_rows (find_search q E) = num_rows E" by (rule num_rows_chars) simp
    moreover have "last_match (find_search q E) = i"
      using Some p by (simp add: find_search_def Let_def)
    ultimately show ?thesis using rg [of i off] Some p by (simp add: last_match_ok_def)
  qed
qed

lemma cursor_inv_find_search:
  assumes "cursor_inv E" "last_match_ok E" "direction E = 1 \<or> direction E = -1"
    "last_match E = -1 \<longrightarrow> direction E = 1"
  shows "cursor_inv (find_search q E)"
proof (cases "find_loop (row E) q (direction E) (last_match E) (length (row E))")
  case None
  then show ?thesis using assms(1) by (simp add: find_search_def)
next
  case (Some p)
  obtain i off where p: "p = (i, off)" by (cases p)
  have rg: "0 \<le> i \<and> i < num_rows E"
    using last_match_ok_find_search(2) [OF assms(2,3,4)] Some p by simp
  define r where "r = row E ! nat i"
  have c: "cy (find_search q E) = i" "cx (find_search q E) = editorRowRxToCx r (int off)"
    using Some p by (simp_all add: find_search_def Let_def r_def)
  have n: "num_rows (find_search q E) = num_rows E" by (rule num_rows_chars) simp
  have ni: "nat i < length (row E)" using rg unfolding num_rows_def by linarith
  have "chars (row (find_search q E) ! nat i) = chars (row E ! nat i)"
    using chars_find_search ni by (rule chars_nth_eq)
  then have sz: "row_size (row (find_search q E) ! nat i) = row_size r"
    by (simp add: row_size_def r_def)
  have bd: "0 \<le> editorRowRxToCx r (int off) \<and> editorRowRxToCx r (int off) \<le> row_size r"
    using rx_loop_bounds [of 0 "chars r" "int off" 0]
    by (simp add: editorRowRxToCx_def row_size_def)
  show ?thesis
    unfolding cursor_inv_iff c n using rg sz bd by simp
qed

lemma search_inv_editorFindCallback:
  assumes "search_inv E"
  shows "search_inv (editorFindCallback q k E)"
proof -
  let ?E1 = "find_restore E"
  let ?E2 = "find_direction k ?E1"
  have i: "cursor_inv E" "0 \<le> row_offset E" "1 \<le> screen_rows E" "last_match_ok E"
    using assms by (simp_all add: search_inv_def)
  have n1: "num_rows ?E1 = num_rows E" by (rule num_rows_chars) simp
  have c1: "cursor_inv ?E1" using i(1) by (subst cursor_inv_cong [of _ E]) simp_all
  have l1: "last_match_ok ?E1" using i(4) n1 by (simp add: last_match_ok_def)
  have stop: "search_inv (?E1\<lparr>last_match := -1, direction := 1\<rparr>)"
  proof -
    have "cursor_inv (?E1\<lparr>last_match := -1, direction := 1\<rparr>)"
      using c1 by (subst cursor_inv_cong [of _ ?E1]) simp_all
    moreover have "0 \<le> num_rows ?E1" by (simp add: num_rows_def)
    ultimately show ?thesis using i(2,3) by (simp add: search_inv_def last_match_ok_def num_rows_def)
  qed
  have c2: "cursor_inv ?E2" using c1 by (subst cursor_inv_cong [of _ ?E1]) simp_all
  have l2: "last_match_ok ?E2" using l1 by (rule find_direction_state)
  note d2 = find_direction_state(2,3) [of k ?E1]
  have go: "search_inv (find_search q ?E2)"
  proof -
    have "cursor_inv (find_search q ?E2)" using c2 l2 d2 by (rule cursor_inv_find_search)
    moreover have "last_match_ok (find_search q ?E2)"
      using l2 d2 by (rule last_match_ok_find_search)
    moreover have "0 \<le> row_offset (find_search q ?E2)"
      using i(2) by (simp add: find_search_def Let_def num_rows_def split: option.splits prod.splits)
    ultimately show ?thesis using i(3) by (simp add: search_inv_def)
  qed
  show ?thesis using stop go by (simp add: editorFindCallback_def Let_def)
qed

lemma last_match_editorFindCallback_end:
  "k = char_int CR \<or> k = char_int ESC \<Longrightarrow> last_match (editorFindCallback q k E) = -1"
  by (auto simp: editorFindCallback_def Let_def)

lemma row_offset_scroll_nonneg:
  "\<lbrakk>0 \<le> cy E; 0 \<le> row_offset E\<rbrakk> \<Longrightarrow> 0 \<le> row_offset (editorScroll E)"
  by (simp add: row_offset_editorScroll min_def)

lemma row_offset_scroll_le:
  "1 \<le> screen_rows E \<Longrightarrow> row_offset (editorScroll E) \<le> cy E"
  by (simp add: row_offset_editorScroll min_def)

lemma cursor_inv_editorScroll [simp]: "cursor_inv (editorScroll E) = cursor_inv E"
  by (rule cursor_inv_cong) simp_all

lemma search_inv_editorScroll: "search_inv E \<Longrightarrow> search_inv (editorScroll E)"
  by (simp add: search_inv_def last_match_ok_def row_offset_scroll_nonneg cursor_invD)

lemma main_inv_editorScroll: "main_inv E \<Longrightarrow> main_inv (editorScroll E)"
  by (simp add: main_inv_def row_offset_scroll_nonneg cursor_invD)

lemma editorPrompt_inv:
  assumes cb: "\<And>b c X. I X \<Longrightarrow> I (call_back cb b c X)"
    and sc: "\<And>X. I X \<Longrightarrow> I (editorScroll X)"
  shows "I E \<Longrightarrow>
    (case editorPrompt cb buff ks E of
       PromptStarved E' \<Rightarrow> I E'
     | Answered a E' ks' \<Rightarrow>
         \<exists>b c X. I X \<and> (c = char_int CR \<or> c = char_int ESC) \<and> E' = call_back cb b c X)"
proof (induction ks arbitrary: buff E)
  case Nil
  then show ?case by (simp add: sc)
next
  case (Cons c ks)
  have s: "I (editorScroll E)" using Cons.prems by (rule sc)
  have n: "I (call_back cb b c (editorScroll E))" for b using s by (rule cb)
  have ex: "\<exists>b' c' X. I X \<and> (c' = char_int CR \<or> c' = char_int ESC)
              \<and> call_back cb b c (editorScroll E) = call_back cb b' c' X"
    if "c = char_int CR \<or> c = char_int ESC" for b
    using s that by blast
  let ?E1 = "editorScroll E"
  let ?del = "c = DEL_KEY \<or> c = CTRL_KEY (CHR ''h'') \<or> c = BACKSPACE"
  consider (del) ?del
    | (esc) "\<not> ?del" "c = char_int ESC"
    | (cr) "\<not> ?del" "c \<noteq> char_int ESC" "c = char_int CR"
    | (chr) "\<not> ?del" "c \<noteq> char_int ESC" "c \<noteq> char_int CR" "\<not> iscntrl c \<and> c < 128"
    | (other) "\<not> ?del" "c \<noteq> char_int ESC" "c \<noteq> char_int CR" "\<not> (\<not> iscntrl c \<and> c < 128)"
    by blast
  then show ?case
  proof cases
    case del
    then have e: "editorPrompt cb buff (c # ks) E =
        editorPrompt cb (butlast buff) ks (call_back cb (butlast buff) c ?E1)"
      by (simp add: Let_def)
    show ?thesis unfolding e by (rule Cons.IH [OF n])
  next
    case esc
    then have e: "editorPrompt cb buff (c # ks) E = Answered None (call_back cb buff c ?E1) ks"
      by (simp add: Let_def)
    show ?thesis unfolding e using ex [of buff] esc(2) by simp
  next
    case cr
    show ?thesis
    proof (cases "buff = []")
      case True
      then have e: "editorPrompt cb buff (c # ks) E =
          editorPrompt cb buff ks (call_back cb buff c ?E1)"
        using cr by (simp add: Let_def)
      show ?thesis unfolding e by (rule Cons.IH [OF n])
    next
      case False
      then have e: "editorPrompt cb buff (c # ks) E =
          Answered (Some buff) (call_back cb buff c ?E1) ks"
        using cr by (simp add: Let_def)
      show ?thesis unfolding e using ex [of buff] cr(3) by simp
    qed
  next
    case chr
    then have e: "editorPrompt cb buff (c # ks) E =
        editorPrompt cb (buff @ [char_of c]) ks (call_back cb (buff @ [char_of c]) c ?E1)"
      by (simp add: Let_def)
    show ?thesis unfolding e by (rule Cons.IH [OF n])
  next
    case other
    then have e: "editorPrompt cb buff (c # ks) E =
        editorPrompt cb buff ks (call_back cb buff c ?E1)"
      by (auto simp: Let_def)
    show ?thesis unfolding e by (rule Cons.IH [OF n])
  qed
qed

lemma main_inv_search_inv: "main_inv E \<Longrightarrow> search_inv E"
  by (simp add: main_inv_def search_inv_def last_match_ok_def num_rows_def)

lemma main_inv_quit_times [simp]: "main_inv (E\<lparr>quit_times := q\<rparr>) = main_inv E"
  by (simp add: main_inv_def cursor_inv_def cursor_ok_def num_rows_def)

lemma outcome_ok_editorFind:
  assumes "main_inv E"
  shows "outcome_ok (editorFind ks E)"
proof -
  define I where "I X = (search_inv X \<and> map chars (row X) = map chars (row E))" for X
  have i0: "I E" using assms by (simp add: I_def main_inv_search_inv)
  have cb: "I (call_back (Some editorFindCallback) b c X)" if "I X" for b c X
    using that by (simp add: I_def call_back_def search_inv_editorFindCallback)
  have sc: "I (editorScroll X)" if "I X" for X
    using that by (simp add: I_def search_inv_editorScroll)
  note P = editorPrompt_inv [of I "Some editorFindCallback", OF cb sc i0, of "[]" ks]
  have fin: "main_inv X \<and> map chars (row X) = map chars (row E)"
    if "\<exists>b c Y. I Y \<and> (c = char_int CR \<or> c = char_int ESC)
          \<and> X = call_back (Some editorFindCallback) b c Y" for X
  proof -
    from that obtain b c Y where y: "I Y" "c = char_int CR \<or> c = char_int ESC"
      "X = editorFindCallback b c Y" by (auto simp: call_back_def)
    have "search_inv X" using y(1,3) by (simp add: I_def search_inv_editorFindCallback)
    moreover have "last_match X = -1" using y(2,3) by (simp add: last_match_editorFindCallback_end)
    moreover have "map chars (row X) = map chars (row E)" using y(1,3) by (simp add: I_def)
    ultimately show ?thesis by (simp add: main_inv_def search_inv_def)
  qed
  show ?thesis
  proof (cases "editorPrompt (Some editorFindCallback) [] ks E")
    case (PromptStarved X)
    then show ?thesis using P by (simp add: editorFind_def I_def outcome_ok_def)
  next
    case (Answered a X ks1)
    then have m: "main_inv X" "map chars (row X) = map chars (row E)" using P fin by simp_all
    show ?thesis
    proof (cases a)
      case (Some query)
      then show ?thesis using Answered m by (simp add: editorFind_def outcome_ok_def)
    next
      case None
      let ?R = "X\<lparr>cx := cx E, cy := cy E, col_offset := col_offset E, row_offset := row_offset E\<rparr>"
      have "cursor_inv ?R = cursor_inv E" using m(2) by (intro cursor_inv_cong) simp_all
      then have "main_inv ?R" using m(1) assms by (simp add: main_inv_def)
      then show ?thesis using Answered None by (simp add: editorFind_def outcome_ok_def)
    qed
  qed
qed

lemma main_inv_write_out [simp]: "main_inv (write_out ok E) = main_inv E"
  by (simp add: write_out_def main_inv_def cursor_inv_def cursor_ok_def num_rows_def)

lemma main_inv_select_syntax:
  "main_inv E \<Longrightarrow> main_inv (editorSelectSyntaxHighlight (E\<lparr>filename := f\<rparr>))"
proof -
  assume a: "main_inv E"
  have "cursor_inv (editorSelectSyntaxHighlight (E\<lparr>filename := f\<rparr>)) = cursor_inv E"
    by (rule cursor_inv_cong) simp_all
  then show ?thesis using a by (simp add: main_inv_def)
qed

lemma outcome_ok_editorSave:
  assumes "main_inv E"
  shows "outcome_ok (editorSave fs ks E)"
proof (cases "filename E")
  case (Some fname)
  then show ?thesis using assms by (simp add: editorSave_def outcome_ok_def)
next
  case None
  have cb: "main_inv (call_back None b c X)" if "main_inv X" for b c X
    using that by (simp add: call_back_def)
  note P = editorPrompt_inv [of main_inv None, OF cb main_inv_editorScroll assms, of "[]" ks]
  show ?thesis
  proof (cases "editorPrompt None [] ks E")
    case (PromptStarved X)
    then show ?thesis using P None by (simp add: editorSave_def main_inv_search_inv outcome_ok_def)
  next
    case (Answered a X ks1)
    then have m: "main_inv X" using P by (auto simp: call_back_def)
    show ?thesis
    proof (cases a)
      case (Some fname)
      then show ?thesis using Answered m None
        by (simp add: editorSave_def main_inv_select_syntax outcome_ok_def)
    next
      case None': None
      then show ?thesis using Answered m None by (simp add: editorSave_def outcome_ok_def)
    qed
  qed
qed

lemma outcome_ok_reset_quit [simp]: "outcome_ok (reset_quit out) = outcome_ok out"
  by (cases out) (simp_all add: outcome_ok_def reset_quit_def)

lemma outcome_ok_Continue [simp]: "outcome_ok (Continue E ks) = main_inv E"
  by (simp add: outcome_ok_def)

lemma main_inv_cursor:
  assumes "main_inv E" "cursor_inv E'" "row_offset E' = row_offset E"
    "screen_rows E' = screen_rows E" "last_match E' = last_match E"
  shows "main_inv E'"
  using assms by (simp add: main_inv_def)

lemma main_inv_page:
  assumes "main_inv E" "0 \<le> y" "y \<le> num_rows E"
  shows "main_inv ((editorMoveCursor k ^^ nat (screen_rows E)) (E\<lparr>cy := y\<rparr>))"
proof -
  let ?X = "(editorMoveCursor k ^^ nat (screen_rows E)) (E\<lparr>cy := y\<rparr>)"
  have "cursor_inv E" using assms(1) by (simp add: main_inv_def)
  then have "0 \<le> cx E" by (rule cursor_invD)
  then have "cursor_loose (E\<lparr>cy := y\<rparr>)"
    using assms(2,3) by (simp add: cursor_loose_def)
  moreover have "0 < nat (screen_rows E)" using assms(1) by (simp add: main_inv_def)
  ultimately have c: "cursor_inv ?X"
    by (rule cursor_inv_funpow_move)
  have f: "row_offset ?X = row_offset (E\<lparr>cy := y\<rparr>)"
    "screen_rows ?X = screen_rows (E\<lparr>cy := y\<rparr>)"
    "last_match ?X = last_match (E\<lparr>cy := y\<rparr>)"
    by (rule funpow_move_keeps)+
  have g: "row_offset (E\<lparr>cy := y\<rparr>) = row_offset E"
    "screen_rows (E\<lparr>cy := y\<rparr>) = screen_rows E"
    "last_match (E\<lparr>cy := y\<rparr>) = last_match E"
    by simp_all
  show ?thesis
    by (rule main_inv_cursor [OF assms(1) c]) (simp_all only: f g)
qed

lemma outcome_ok_dispatch_key:
  assumes m: "main_inv E" and ro: "row_offset E \<le> cy E"
  shows "outcome_ok (dispatch_key fs c ks E)"
proof -
  have ci: "cursor_inv E" and sr: "1 \<le> screen_rows E" and r0: "0 \<le> row_offset E"
    using m by (simp_all add: main_inv_def)
  note cd = cursor_invD [OF ci]
  have keep: "main_inv X" if "cursor_inv X" "row_offset X = row_offset E"
      "screen_rows X = screen_rows E" "last_match X = last_match E" for X
    using m that by (rule main_inv_cursor)
  have mv: "main_inv (editorMoveCursor k E)" for k
    by (rule keep) (simp_all add: cursor_inv_editorMoveCursor cursor_inv_loose ci)
  have dl: "main_inv (editorDelChar X)" if "main_inv X" for X
    by (rule main_inv_cursor [OF that]) (use that in \<open>simp_all add: cursor_inv_editorDelChar main_inv_def\<close>)
  define k1 where "k1 \<longleftrightarrow> c = char_int CR"
  define k2 where "k2 \<longleftrightarrow> c = CTRL_KEY (CHR ''q'')"
  define k3 where "k3 \<longleftrightarrow> c = CTRL_KEY (CHR ''s'')"
  define k4 where "k4 \<longleftrightarrow> c = HOME_KEY"
  define k5 where "k5 \<longleftrightarrow> c = END_KEY"
  define k6 where "k6 \<longleftrightarrow> c = CTRL_KEY (CHR ''f'')"
  define k7 where "k7 \<longleftrightarrow> c = BACKSPACE \<or> c = CTRL_KEY (CHR ''h'') \<or> c = DEL_KEY"
  define k8 where "k8 \<longleftrightarrow> c = PAGE_UP \<or> c = PAGE_DOWN"
  define k9 where "k9 \<longleftrightarrow> c = ARROW_UP \<or> c = ARROW_DOWN \<or> c = ARROW_LEFT \<or> c = ARROW_RIGHT"
  define k10 where "k10 \<longleftrightarrow> c = CTRL_KEY (CHR ''l'') \<or> c = char_int ESC"
  note ks = k1_def k2_def k3_def k4_def k5_def k6_def k7_def k8_def k9_def k10_def
  have d: "dispatch_key fs c ks E =
    (if k1 then reset_quit (Continue (editorInsertNewline E) ks)
     else if k2 then
       (if dirty E \<noteq> 0 \<and> quit_times E > 0
        then Continue (E\<lparr>quit_times := quit_times E - 1\<rparr>) ks
        else Exited)
     else if k3 then reset_quit (editorSave fs ks E)
     else if k4 then reset_quit (Continue (E\<lparr>cx := 0\<rparr>) ks)
     else if k5 then
       reset_quit (Continue (if cy E < num_rows E
                             then E\<lparr>cx := row_size (row E ! nat (cy E))\<rparr> else E) ks)
     else if k6 then reset_quit (editorFind ks E)
     else if k7 then
       reset_quit (Continue (editorDelChar
                     (if c = DEL_KEY then editorMoveCursor ARROW_RIGHT E else E)) ks)
     else if k8 then
       (let E1 = (if c = PAGE_UP then E\<lparr>cy := row_offset E\<rparr>
                  else
                    let E0 = E\<lparr>cy := row_offset E + screen_rows E - 1\<rparr>
                    in if cy E0 > num_rows E0 then E0\<lparr>cy := num_rows E0\<rparr> else E0)
        in if screen_rows E1 < 0 then Undefined
           else reset_quit (Continue
                  ((editorMoveCursor (if c = PAGE_UP then ARROW_UP else ARROW_DOWN)
                      ^^ nat (screen_rows E1)) E1) ks))
     else if k9 then reset_quit (Continue (editorMoveCursor c E) ks)
     else if k10 then reset_quit (Continue E ks)
     else reset_quit (Continue (editorInsertChar c E) ks))"
    unfolding ks dispatch_key_def ..
  consider (cr) k1
    | (quit) "\<not> k1" k2
    | (save) "\<not> k1" "\<not> k2" k3
    | (home) "\<not> k1" "\<not> k2" "\<not> k3" k4
    | (endk) "\<not> k1" "\<not> k2" "\<not> k3" "\<not> k4" k5
    | (find) "\<not> k1" "\<not> k2" "\<not> k3" "\<not> k4" "\<not> k5" k6
    | (del) "\<not> k1" "\<not> k2" "\<not> k3" "\<not> k4" "\<not> k5" "\<not> k6" k7
    | (page) "\<not> k1" "\<not> k2" "\<not> k3" "\<not> k4" "\<not> k5" "\<not> k6" "\<not> k7" k8
    | (arrow) "\<not> k1" "\<not> k2" "\<not> k3" "\<not> k4" "\<not> k5" "\<not> k6" "\<not> k7" "\<not> k8" k9
    | (nop) "\<not> k1" "\<not> k2" "\<not> k3" "\<not> k4" "\<not> k5" "\<not> k6" "\<not> k7" "\<not> k8" "\<not> k9" k10
    | (ins) "\<not> k1" "\<not> k2" "\<not> k3" "\<not> k4" "\<not> k5" "\<not> k6" "\<not> k7" "\<not> k8" "\<not> k9" "\<not> k10"
    by blast
  then show ?thesis
  proof cases
    case cr
    then have e: "dispatch_key fs c ks E = reset_quit (Continue (editorInsertNewline E) ks)"
      unfolding d by simp
    have "main_inv (editorInsertNewline E)"
      by (rule keep) (simp_all add: cursor_inv_editorInsertNewline ci)
    then show ?thesis unfolding e by simp
  next
    case quit
    then have e: "dispatch_key fs c ks E =
        (if dirty E \<noteq> 0 \<and> quit_times E > 0
         then Continue (E\<lparr>quit_times := quit_times E - 1\<rparr>) ks else Exited)"
      unfolding d by simp
    show ?thesis unfolding e using m by (simp add: outcome_ok_def)
  next
    case save
    then have e: "dispatch_key fs c ks E = reset_quit (editorSave fs ks E)"
      unfolding d by simp
    show ?thesis unfolding e using m by (simp add: outcome_ok_editorSave)
  next
    case home
    then have e: "dispatch_key fs c ks E = reset_quit (Continue (E\<lparr>cx := 0\<rparr>) ks)"
      unfolding d by simp
    have "cursor_inv (E\<lparr>cx := 0\<rparr>)" using cd by (simp add: cursor_inv_iff)
    then have "main_inv (E\<lparr>cx := 0\<rparr>)" by (rule keep) simp_all
    then show ?thesis unfolding e by simp
  next
    case endk
    let ?X = "if cy E < num_rows E then E\<lparr>cx := row_size (row E ! nat (cy E))\<rparr> else E"
    from endk have e: "dispatch_key fs c ks E = reset_quit (Continue ?X ks)"
      unfolding d by simp
    have "cursor_inv ?X" using cd ci by (simp add: cursor_inv_iff)
    then have "main_inv ?X" by (rule keep) simp_all
    then show ?thesis unfolding e by simp
  next
    case find
    then have e: "dispatch_key fs c ks E = reset_quit (editorFind ks E)"
      unfolding d by simp
    show ?thesis unfolding e using m by (simp add: outcome_ok_editorFind)
  next
    case del
    then have e: "dispatch_key fs c ks E =
        reset_quit (Continue (editorDelChar
                     (if c = DEL_KEY then editorMoveCursor ARROW_RIGHT E else E)) ks)"
      unfolding d by simp
    have "main_inv (if c = DEL_KEY then editorMoveCursor ARROW_RIGHT E else E)"
      using m mv by simp
    then show ?thesis unfolding e by (simp add: dl)
  next
    case page
    let ?k = "if c = PAGE_UP then ARROW_UP else ARROW_DOWN"
    let ?y = "if c = PAGE_UP then row_offset E
              else if row_offset E + screen_rows E - 1 > num_rows E then num_rows E
              else row_offset E + screen_rows E - 1"
    from page sr have e: "dispatch_key fs c ks E =
        reset_quit (Continue ((editorMoveCursor ?k ^^ nat (screen_rows E)) (E\<lparr>cy := ?y\<rparr>)) ks)"
      unfolding d by (simp add: Let_def)
    have "0 \<le> ?y" "?y \<le> num_rows E" using r0 ro sr cd(2) by auto
    then have "main_inv ((editorMoveCursor ?k ^^ nat (screen_rows E)) (E\<lparr>cy := ?y\<rparr>))"
      by (rule main_inv_page [OF m])
    then show ?thesis unfolding e by simp
  next
    case arrow
    then have e: "dispatch_key fs c ks E = reset_quit (Continue (editorMoveCursor c E) ks)"
      unfolding d by simp
    show ?thesis unfolding e by (simp add: mv)
  next
    case nop
    then have e: "dispatch_key fs c ks E = reset_quit (Continue E ks)"
      unfolding d by simp
    show ?thesis unfolding e using m by simp
  next
    case ins
    then have e: "dispatch_key fs c ks E = reset_quit (Continue (editorInsertChar c E) ks)"
      unfolding d by simp
    have "main_inv (editorInsertChar c E)"
      by (rule keep) (simp_all add: cursor_inv_editorInsertChar ci)
    then show ?thesis unfolding e by simp
  qed
qed

lemma outcome_ok_main_step: "main_inv E \<Longrightarrow> outcome_ok (main_step fs ks E)"
proof -
  assume m: "main_inv E"
  have s: "main_inv (editorScroll E)" using m by (rule main_inv_editorScroll)
  have "1 \<le> screen_rows E" using m by (simp add: main_inv_def)
  then have r: "row_offset (editorScroll E) \<le> cy (editorScroll E)"
    by (simp add: row_offset_scroll_le)
  show ?thesis
  proof (cases ks)
    case Nil
    then show ?thesis using s by (simp add: main_step_def editorProcessKeypress_def outcome_ok_def
          main_inv_search_inv)
  next
    case (Cons c ks')
    then show ?thesis using outcome_ok_dispatch_key [OF s r]
      by (simp add: main_step_def editorProcessKeypress_def)
  qed
qed

lemma main_inv_initEditor: "3 \<le> term_rows \<Longrightarrow> main_inv (initEditor term_rows term_cols)"
  by (simp add: main_inv_def cursor_inv_def cursor_ok_def initEditor_def num_rows_def)

text \<open>
  C7 (amended). In a text area of at least one row, the state between two keys of the
  main loop has the cursor bounds of the specification and more: the column is 0 on the
  line after the last row, the window does not start above the document, and no search
  is open. From such a state the cursor bounds hold after \<open>editorMoveCursor\<close>,
  \<open>editorInsertChar\<close>, \<open>editorInsertNewline\<close>, \<open>editorDelChar\<close> and a step of the
  search callback; and one round of the main loop (redraw, then any key with all it
  reads behind it: paging, home, end, delete, search, save) ends in a state of the same
  kind, or waits for input inside the prompt with the cursor in bounds; it never runs
  into undefined behaviour. \<open>initEditor\<close> gives such a state for a terminal of at
  least 3 lines.
\<close>

theorem cursor_bounds_invariant:
  assumes "main_inv E"
  shows "cursor_ok E
       \<and> cursor_inv (editorMoveCursor k E) \<and> cursor_ok (editorMoveCursor k E)
       \<and> cursor_inv (editorInsertChar c E) \<and> cursor_ok (editorInsertChar c E)
       \<and> cursor_inv (editorInsertNewline E) \<and> cursor_ok (editorInsertNewline E)
       \<and> cursor_inv (editorDelChar E) \<and> cursor_ok (editorDelChar E)
       \<and> search_inv (editorFindCallback q k E) \<and> cursor_ok (editorFindCallback q k E)
       \<and> outcome_ok (main_step fs ks E)
       \<and> (main_step fs ks E = Continue E' ks' \<longrightarrow> main_inv E' \<and> cursor_ok E')
       \<and> (main_step fs ks E = Waiting E' \<longrightarrow> search_inv E' \<and> cursor_ok E')
       \<and> main_step fs ks E \<noteq> Undefined
       \<and> (3 \<le> term_rows \<longrightarrow> main_inv (initEditor term_rows term_cols))"
proof -
  have ci: "cursor_inv E" using assms by (simp add: main_inv_def)
  have ok: "cursor_inv X \<Longrightarrow> cursor_ok X" for X by (simp add: cursor_inv_def)
  have 1: "cursor_inv (editorMoveCursor k E)"
    using ci by (intro cursor_inv_editorMoveCursor cursor_inv_loose)
  have 2: "cursor_inv (editorInsertChar c E)" using ci by (rule cursor_inv_editorInsertChar)
  have 3: "cursor_inv (editorInsertNewline E)" using ci by (rule cursor_inv_editorInsertNewline)
  have 4: "cursor_inv (editorDelChar E)" using ci by (rule cursor_inv_editorDelChar)
  have 5: "search_inv (editorFindCallback q k E)"
    using assms by (intro search_inv_editorFindCallback main_inv_search_inv)
  then have 6: "cursor_inv (editorFindCallback q k E)" by (simp add: search_inv_def)
  have 7: "outcome_ok (main_step fs ks E)" using assms by (rule outcome_ok_main_step)
  have 8: "main_step fs ks E = Continue E' ks' \<longrightarrow> main_inv E' \<and> cursor_ok E'"
    using 7 by (auto simp: outcome_ok_def main_inv_def cursor_inv_def)
  have 9: "main_step fs ks E = Waiting E' \<longrightarrow> search_inv E' \<and> cursor_ok E'"
    using 7 by (auto simp: outcome_ok_def search_inv_def cursor_inv_def)
  have 10: "main_step fs ks E \<noteq> Undefined"
    using 7 by (auto simp: outcome_ok_def)
  have 11: "3 \<le> term_rows \<longrightarrow> main_inv (initEditor term_rows term_cols)"
    by (simp add: main_inv_initEditor)
  show ?thesis
    using ok [OF ci] 1 ok [OF 1] 2 ok [OF 2] 3 ok [OF 3] 4 ok [OF 4] 5 ok [OF 6] 7 8 9 10 11
    by blast
qed

lemma two_rows_main_inv: "main_inv (two_rows\<lparr>cy := 1\<rparr>)"
  by (simp add: two_rows_eq main_inv_def cursor_inv_def cursor_ok_def num_rows_def row_size_def)

lemma two_rows_end_key:
  "main_step True [END_KEY] (two_rows\<lparr>cy := 1\<rparr>) = Continue (two_rows\<lparr>cy := 1, cx := 2\<rparr>) []"
  by (simp add: two_rows_eq main_step_def editorProcessKeypress_def dispatch_key_def
        editorScroll_def scroll_defs Let_def num_rows_def row_size_def editorRowCxToRx_def
        reset_quit_def key_defs CTRL_KEY_def char_int_def CR_def EDI_QUIT_TIMES_def)

theorem cursor_bounds_invariant_witness:
  "main_inv (two_rows\<lparr>cy := 1\<rparr>)
   \<and> main_step True [END_KEY] (two_rows\<lparr>cy := 1\<rparr>) = Continue (two_rows\<lparr>cy := 1, cx := 2\<rparr>) []
   \<and> main_inv (two_rows\<lparr>cy := 1, cx := 2\<rparr>) \<and> cursor_ok (two_rows\<lparr>cy := 1, cx := 2\<rparr>)
   \<and> cursor_ok (editorInsertChar 120 (two_rows\<lparr>cy := 1\<rparr>))
   \<and> (3::int) \<le> 24 \<and> main_inv (initEditor 24 80)"
  using cursor_bounds_invariant [OF two_rows_main_inv, where c = 120 and fs = True
      and ks = "[END_KEY]" and E' = "two_rows\<lparr>cy := 1, cx := 2\<rparr>" and ks' = "[]"
      and term_rows = 24 and term_cols = 80]
    two_rows_main_inv two_rows_end_key
  by simp

text \<open>
  C7 as stated fails in a terminal of 2 lines, where no text row is left: the first
  redraw puts \<open>row_offset\<close> at 1, and \<open>PAGE_UP\<close> then sets \<open>cy\<close> to 1 in an empty
  document, with no cursor move after it to clamp anything.
\<close>

theorem cursor_bounds_counterexample:
  "cursor_ok (initEditor 2 80) \<and> cursor_ok (editorScroll (initEditor 2 80))
   \<and> main_step True [PAGE_UP] (initEditor 2 80)
        = Continue ((initEditor 2 80)\<lparr>row_offset := 1, cy := 1\<rparr>) []
   \<and> cy ((initEditor 2 80)\<lparr>row_offset := 1, cy := 1\<rparr>) = 1
   \<and> num_rows ((initEditor 2 80)\<lparr>row_offset := 1, cy := 1\<rparr>) = 0
   \<and> \<not> cursor_ok ((initEditor 2 80)\<lparr>row_offset := 1, cy := 1\<rparr>)"
  by (simp add: initEditor_def main_step_def editorProcessKeypress_def dispatch_key_def
        editorScroll_def scroll_defs Let_def num_rows_def cursor_ok_def
        reset_quit_def key_defs CTRL_KEY_def char_int_def CR_def EDI_QUIT_TIMES_def)


end
